theory Spec2Isabelle
  imports Main "HOL-Library.Word"
begin

unbundle bit_operations_syntax

section \<open>Data model (Message.hpp, Driver.hpp)\<close>

text \<open>
  The integer types of the headers: \<open>Bit\<close> and \<open>Byte\<close> are \<open>std::uint8_t\<close>,
  \<open>Address\<close> and \<open>Data\<close> are \<open>std::uint16_t\<close>, \<open>Driver::Time\<close> is \<open>std::int64_t\<close>
  (read as two's complement through \<open>sint\<close>, compared with \<open><s\<close> and \<open>\<le>s\<close>).
  \<open>Size\<close> is \<open>std::size_t\<close>, 32 bits wide on the ESP32 targets of the library. The
  type \<open>int\<close> of C++, to which the narrower operands of a shift are promoted, is a
  32-bit word.
\<close>

type_synonym Bit = "8 word"
type_synonym Byte = "8 word"
type_synonym Size = "32 word"
type_synonym Address = "16 word"
type_synonym Data = "16 word"
type_synonym Time = "64 word"
type_synonym cint = "32 word"

definition MAX_MESSAGE_SIZE :: nat where
  "MAX_MESSAGE_SIZE = 256"

datatype BroadcastType = BROADCAST | FOR_DEVICE

datatype AcknowledgmentType = ACK | NAK

text \<open>
  \<open>Bytes\<close> is \<open>std::array<Byte, MAX_MESSAGE_SIZE>\<close>: a list that always has 256
  elements. \<open>Message message = {}\<close> value-initialises every member.
\<close>

record Message =
  broadcast :: BroadcastType
  master :: Address
  slave :: Address
  control :: Byte
  dataLength :: Size
  data :: "Byte list"

definition emptyMessage :: Message where
  "emptyMessage = \<lparr>broadcast = BROADCAST, master = 0, slave = 0, control = 0,
     dataLength = 0, data = replicate MAX_MESSAGE_SIZE 0\<rparr>"

section \<open>The bus as seen by one call\<close>

text \<open>
  The driver touches the hardware through four calls: \<open>gpio_get_level\<close> on the receive
  pin, \<open>gpio_set_level\<close> on the transmit and enable pins, and \<open>getTimeUs\<close> and
  \<open>delayUs\<close> of \<open>common.hpp\<close>. A world holds what the two reading calls will return, in
  the order of the calls (\<open>rxLevels\<close>, \<open>clockUs\<close>), and the log \<open>events\<close> of everything
  the code did so far: each pin write, each delay, and the value returned by each
  \<open>receiveStartBit\<close> and \<open>receiveBit\<close>. The member \<open>m_isEnabled\<close> of the driver is kept
  in the same record.

  A call has one of three outcomes: it returns a value, it never returns because a
  read finds no further sample (a wait loop then spins forever on a line that does not
  change), or it indexes the payload array out of its bounds.
\<close>

datatype event =
    SetTx bool
  | SetEnable bool
  | DelayUs Time
  | GotStart bool
  | GotBit Bit

record world =
  rxLevels :: "bool list"
  clockUs :: "Time list"
  events :: "event list"
  m_isEnabled :: bool

datatype 'a res = Ret 'a | Blocked | OutOfBounds

type_synonym 'a step = "world \<Rightarrow> 'a res \<times> world"

definition gpio_get_level_rx :: "bool step" where
  "gpio_get_level_rx w =
     (case rxLevels w of
        [] \<Rightarrow> (Blocked, w)
      | l # ls \<Rightarrow> (Ret l, w\<lparr>rxLevels := ls\<rparr>))"

definition getTimeUs :: "Time step" where
  "getTimeUs w =
     (case clockUs w of
        [] \<Rightarrow> (Blocked, w)
      | t # ts \<Rightarrow> (Ret t, w\<lparr>clockUs := ts\<rparr>))"

definition emit :: "event \<Rightarrow> world \<Rightarrow> world" where
  "emit e w = w\<lparr>events := events w @ [e]\<rparr>"

definition delayUs :: "Time \<Rightarrow> world \<Rightarrow> world" where
  "delayUs t w = emit (DelayUs t) w"

definition gpio_set_level_tx :: "bool \<Rightarrow> world \<Rightarrow> world" where
  "gpio_set_level_tx l w = emit (SetTx l) w"

definition gpio_set_level_enable :: "bool \<Rightarrow> world \<Rightarrow> world" where
  "gpio_set_level_enable l w = emit (SetEnable l) w"

text \<open>Sequencing: the second call runs in the world the first one left, if it returned.\<close>

definition ret :: "'a \<Rightarrow> 'a step" where
  "ret x w = (Ret x, w)"

definition andThen :: "'a step \<Rightarrow> ('a \<Rightarrow> 'b step) \<Rightarrow> 'b step" where
  "andThen f g w =
     (case f w of
        (Ret x, w') \<Rightarrow> g x w'
      | (Blocked, w') \<Rightarrow> (Blocked, w')
      | (OutOfBounds, w') \<Rightarrow> (OutOfBounds, w'))"

text \<open>A call that returns nothing and cannot fail, as a step.\<close>

definition act :: "(world \<Rightarrow> world) \<Rightarrow> unit step" where
  "act f w = (Ret (), f w)"

section \<open>Driver.cpp\<close>

definition START_BIT_TOTAL_US :: Time where "START_BIT_TOTAL_US = 190"
definition START_BIT_HIGH_US :: Time where "START_BIT_HIGH_US = 171"
definition START_BIT_LOW_US :: Time where
  "START_BIT_LOW_US = START_BIT_TOTAL_US - START_BIT_HIGH_US"
definition START_BIT_THRESHOLD_US :: Time where "START_BIT_THRESHOLD_US = 20"

definition DATA_BIT_TOTAL_US :: Time where "DATA_BIT_TOTAL_US = 39"
definition DATA_BIT_0_HIGH_US :: Time where "DATA_BIT_0_HIGH_US = 33"
definition DATA_BIT_0_LOW_US :: Time where
  "DATA_BIT_0_LOW_US = DATA_BIT_TOTAL_US - DATA_BIT_0_HIGH_US"
definition DATA_BIT_1_HIGH_US :: Time where "DATA_BIT_1_HIGH_US = 20"
definition DATA_BIT_1_LOW_US :: Time where
  "DATA_BIT_1_LOW_US = DATA_BIT_TOTAL_US - DATA_BIT_1_HIGH_US"

text \<open>\<open>std::abs\<close> on \<open>std::int64_t\<close>; the negation wraps at the least value.\<close>

definition abs64 :: "Time \<Rightarrow> Time" where
  "abs64 x = (if x <s 0 then - x else x)"

definition decodeBit :: "Time \<Rightarrow> Bit" where
  "decodeBit pulseWidthUs =
     (let diff0 = abs64 (pulseWidthUs - DATA_BIT_0_HIGH_US);
          diff1 = abs64 (pulseWidthUs - DATA_BIT_1_HIGH_US)
      in if diff1 <s diff0 then 1 else 0)"

definition isEnabled :: "world \<Rightarrow> bool" where
  "isEnabled w = m_isEnabled w"

definition isBusHigh :: "bool step" where
  "isBusHigh = gpio_get_level_rx"

definition isBusLow :: "bool step" where
  "isBusLow = andThen isBusHigh (\<lambda>h. ret (\<not> h))"

definition enable :: "world \<Rightarrow> world" where
  "enable w = gpio_set_level_enable True (w\<lparr>m_isEnabled := True\<rparr>)"

definition disable :: "world \<Rightarrow> world" where
  "disable w = gpio_set_level_enable False (w\<lparr>m_isEnabled := False\<rparr>)"

text \<open>\<open>while (isBusHigh()) {}\<close> and \<open>while (isBusLow()) {}\<close>: one sample per turn.\<close>

function waitBusLow :: "unit step" where
  "waitBusLow w =
     (case isBusHigh w of
        (Ret h, w') \<Rightarrow> (if h then waitBusLow w' else (Ret (), w'))
      | (Blocked, w') \<Rightarrow> (Blocked, w')
      | (OutOfBounds, w') \<Rightarrow> (OutOfBounds, w'))"
  by pat_completeness auto
termination
  by (relation "measure (\<lambda>w. length (rxLevels w))")
     (auto simp: isBusHigh_def gpio_get_level_rx_def split: list.splits)

declare waitBusLow.simps [simp del]

function waitBusHigh :: "unit step" where
  "waitBusHigh w =
     (case isBusLow w of
        (Ret l, w') \<Rightarrow> (if l then waitBusHigh w' else (Ret (), w'))
      | (Blocked, w') \<Rightarrow> (Blocked, w')
      | (OutOfBounds, w') \<Rightarrow> (OutOfBounds, w'))"
  by pat_completeness auto
termination
  by (relation "measure (\<lambda>w. length (rxLevels w))")
     (auto simp: isBusLow_def isBusHigh_def andThen_def ret_def gpio_get_level_rx_def
           split: list.splits)

declare waitBusHigh.simps [simp del]

text \<open>
  \<open>isBusFree\<close>: not free when the line is high at the call; otherwise free once the
  line has stayed low for \<open>DATA_BIT_TOTAL_US\<close> by the clock, and not free if it goes
  high before.
\<close>

function isBusFree_loop :: "Time \<Rightarrow> bool step" where
  "isBusFree_loop startTime w =
     (case isBusLow w of
        (Ret l, w') \<Rightarrow>
          (if l then
             (case getTimeUs w' of
                (Ret currentTime, w'') \<Rightarrow>
                  (let timeDifference = currentTime - startTime
                   in if DATA_BIT_TOTAL_US \<le>s timeDifference then (Ret True, w'')
                      else isBusFree_loop startTime w'')
              | (Blocked, w'') \<Rightarrow> (Blocked, w'')
              | (OutOfBounds, w'') \<Rightarrow> (OutOfBounds, w''))
           else (Ret False, w'))
      | (Blocked, w') \<Rightarrow> (Blocked, w')
      | (OutOfBounds, w') \<Rightarrow> (OutOfBounds, w'))"
  by pat_completeness auto
termination
  by (relation "measure (\<lambda>(t, w). length (rxLevels w))")
     (auto simp: isBusLow_def isBusHigh_def andThen_def ret_def gpio_get_level_rx_def
                 getTimeUs_def
           split: list.splits)

declare isBusFree_loop.simps [simp del]

definition isBusFree :: "bool step" where
  "isBusFree =
     andThen isBusHigh (\<lambda>h.
       if h then ret False
       else andThen getTimeUs (\<lambda>startTime. isBusFree_loop startTime))"

definition receiveStartBit :: "bool step" where
  "receiveStartBit =
     (let startBitMinHighUs = START_BIT_HIGH_US - START_BIT_THRESHOLD_US;
          startBitMaxHighUs = START_BIT_HIGH_US + START_BIT_THRESHOLD_US
      in andThen waitBusHigh (\<lambda>_.
         andThen getTimeUs (\<lambda>startTime.
         andThen waitBusLow (\<lambda>_.
         andThen getTimeUs (\<lambda>stopTime.
           let highDuration = stopTime - startTime;
               isStartBit = (startBitMinHighUs \<le>s highDuration
                             \<and> highDuration \<le>s startBitMaxHighUs)
           in andThen (act (emit (GotStart isStartBit))) (\<lambda>_. ret isStartBit))))))"

definition receiveBit :: "Bit step" where
  "receiveBit =
     andThen waitBusHigh (\<lambda>_.
     andThen getTimeUs (\<lambda>startTime.
     andThen waitBusLow (\<lambda>_.
     andThen getTimeUs (\<lambda>stopTime.
       let highDuration = stopTime - startTime;
           bitv = decodeBit highDuration
       in andThen (act (emit (GotBit bitv))) (\<lambda>_. ret bitv)))))"

text \<open>
  \<open>receiveBits\<close>: \<open>bitValue\<close> is an \<open>int\<close>, so \<open>bitValue << bitShift\<close> is a 32-bit
  shift, and \<open>result |= ...\<close> keeps its low 16 bits. The counters \<open>i\<close> and \<open>numBits\<close>
  are natural numbers: \<open>i\<close> stays below \<open>numBits\<close> and cannot wrap.
\<close>

function receiveBits_loop :: "nat \<Rightarrow> nat \<Rightarrow> Data \<Rightarrow> Data step" where
  "receiveBits_loop numBits i result w =
     (if i < numBits then
        (case receiveBit w of
           (Ret bitv, w') \<Rightarrow>
             (let bitValue = (if bitv \<noteq> 0 then 1 else 0 :: cint);
                  bitShift = numBits - 1 - i
              in receiveBits_loop numBits (i + 1)
                   (result OR ucast (push_bit bitShift bitValue)) w')
         | (Blocked, w') \<Rightarrow> (Blocked, w')
         | (OutOfBounds, w') \<Rightarrow> (OutOfBounds, w'))
      else (Ret result, w))"
  by pat_completeness auto
termination
  by (relation "measure (\<lambda>(numBits, i, result, w). numBits - i)") auto

declare receiveBits_loop.simps [simp del]

definition receiveBits :: "nat \<Rightarrow> Data step" where
  "receiveBits numBits = receiveBits_loop numBits 0 0"

definition receiveAckBit :: "AcknowledgmentType step" where
  "receiveAckBit =
     andThen receiveBit (\<lambda>ackBit. if ackBit = 0 then ret ACK else ret NAK)"

definition transmitStartBit :: "world \<Rightarrow> world" where
  "transmitStartBit w =
     delayUs START_BIT_LOW_US (gpio_set_level_tx False
       (delayUs START_BIT_HIGH_US (gpio_set_level_tx True w)))"

definition transmitBit :: "Bit \<Rightarrow> world \<Rightarrow> world" where
  "transmitBit bitv w =
     (let highDuration = (if bitv \<noteq> 0 then DATA_BIT_1_HIGH_US else DATA_BIT_0_HIGH_US);
          lowDuration = (if bitv \<noteq> 0 then DATA_BIT_1_LOW_US else DATA_BIT_0_LOW_US)
      in delayUs lowDuration (gpio_set_level_tx False
           (delayUs highDuration (gpio_set_level_tx True w))))"

text \<open>
  \<open>transmitBits\<close>: \<open>data >> bitPosition & 1\<close> is computed on \<open>int\<close> and cast to \<open>Bit\<close>.
\<close>

function transmitBits_loop :: "Data \<Rightarrow> nat \<Rightarrow> nat \<Rightarrow> world \<Rightarrow> world" where
  "transmitBits_loop dat numBits i w =
     (if i < numBits then
        (let bitPosition = numBits - 1 - i;
             bitv = (ucast (drop_bit bitPosition (ucast dat :: cint) AND 1) :: Bit)
         in transmitBits_loop dat numBits (i + 1) (transmitBit bitv w))
      else w)"
  by pat_completeness auto
termination
  by (relation "measure (\<lambda>(dat, numBits, i, w). numBits - i)") auto

declare transmitBits_loop.simps [simp del]

definition transmitBits :: "Data \<Rightarrow> nat \<Rightarrow> world \<Rightarrow> world" where
  "transmitBits dat numBits = transmitBits_loop dat numBits 0"

definition sendAckBit :: "AcknowledgmentType \<Rightarrow> world \<Rightarrow> world" where
  "sendAckBit ack w = (if ack = ACK then transmitBit 0 w else transmitBit 1 w)"

section \<open>Controller.cpp\<close>

definition MASTER_ADDRESS_BIT_SIZE :: nat where "MASTER_ADDRESS_BIT_SIZE = 12"
definition SLAVE_ADDRESS_BIT_SIZE :: nat where "SLAVE_ADDRESS_BIT_SIZE = 12"
definition CONTROL_BIT_SIZE :: nat where "CONTROL_BIT_SIZE = 4"
definition DATA_LENGTH_BIT_SIZE :: nat where "DATA_LENGTH_BIT_SIZE = 8"
definition DATA_BIT_SIZE :: nat where "DATA_BIT_SIZE = 8"

text \<open>
  \<open>calculateParity\<close>: \<open>parity ^= data >> i & 1\<close> promotes \<open>parity\<close> and \<open>data\<close> to
  \<open>int\<close>, and assigns the low 8 bits of the result.
\<close>

function calculateParity_loop :: "Data \<Rightarrow> nat \<Rightarrow> nat \<Rightarrow> Bit \<Rightarrow> Bit" where
  "calculateParity_loop dat sz i parity =
     (if i < sz then
        calculateParity_loop dat sz (i + 1)
          (ucast ((ucast parity :: cint) XOR (drop_bit i (ucast dat :: cint) AND 1)))
      else parity)"
  by pat_completeness auto
termination
  by (relation "measure (\<lambda>(dat, sz, i, parity). sz - i)") auto

declare calculateParity_loop.simps [simp del]

definition calculateParity :: "Data \<Rightarrow> nat \<Rightarrow> Bit" where
  "calculateParity dat sz = calculateParity_loop dat sz 0 0"

definition checkParity :: "Data \<Rightarrow> nat \<Rightarrow> Bit \<Rightarrow> bool" where
  "checkParity dat sz parity = (calculateParity dat sz = parity)"

text \<open>
  \<open>readMessage\<close> is a sequence of blocks, one per field. Each block is a definition
  here; it returns \<open>None\<close> where the source returns \<open>std::nullopt\<close>, and the message
  filled so far otherwise. The conversions are those of the assignments:
  \<open>message.control\<close> keeps the low 8 bits of the \<open>Data\<close> received, \<open>message.dataLength\<close>
  widens it to \<open>Size\<close>, and the arguments of \<open>checkParity\<close> are converted back to
  \<open>Data\<close>.
\<close>

definition answer :: "bool \<Rightarrow> AcknowledgmentType \<Rightarrow> unit step" where
  "answer isAnswer ack = (if isAnswer then act (sendAckBit ack) else ret ())"

definition readMessage_broadcast :: "Message \<Rightarrow> Message step" where
  "readMessage_broadcast message =
     andThen receiveBit (\<lambda>broadcastBit.
       if broadcastBit = 0 then ret (message\<lparr>broadcast := BROADCAST\<rparr>)
       else ret (message\<lparr>broadcast := FOR_DEVICE\<rparr>))"

definition readMessage_master :: "Message \<Rightarrow> (Message option) step" where
  "readMessage_master message0 =
     andThen (receiveBits MASTER_ADDRESS_BIT_SIZE) (\<lambda>v.
       let message = message0\<lparr>master := v\<rparr> in
       andThen receiveBit (\<lambda>masterParityBit.
         let isParityValid =
               checkParity (master message) MASTER_ADDRESS_BIT_SIZE masterParityBit
         in if \<not> isParityValid then ret None else ret (Some message)))"

definition readMessage_slave :: "Address \<Rightarrow> Message \<Rightarrow> (Message option) step" where
  "readMessage_slave m_address message0 =
     andThen (receiveBits SLAVE_ADDRESS_BIT_SIZE) (\<lambda>v.
       let message = message0\<lparr>slave := v\<rparr> in
       andThen receiveBit (\<lambda>parityBit.
         let isParityValid = checkParity (slave message) SLAVE_ADDRESS_BIT_SIZE parityBit in
         andThen receiveAckBit (\<lambda>ackBit.
           let isNeedAnswer = (ackBit = ACK);
               isForDevice = (broadcast message = FOR_DEVICE);
               isForThisDevice = (slave message = m_address);
               isAnswer = (isNeedAnswer \<and> isForDevice \<and> isForThisDevice)
           in if \<not> isParityValid then andThen (answer isAnswer NAK) (\<lambda>_. ret None)
              else andThen (answer isAnswer ACK) (\<lambda>_. ret (Some message)))))"

definition readMessage_control :: "Address \<Rightarrow> Message \<Rightarrow> (Message option) step" where
  "readMessage_control m_address message0 =
     andThen (receiveBits CONTROL_BIT_SIZE) (\<lambda>v.
       let message = message0\<lparr>control := ucast v\<rparr> in
       andThen receiveBit (\<lambda>parityBit.
         let isParityValid = checkParity (ucast (control message)) CONTROL_BIT_SIZE parityBit in
         andThen receiveAckBit (\<lambda>ackBit.
           let isNeedAnswer = (ackBit = ACK);
               isForDevice = (broadcast message = FOR_DEVICE);
               isForThisDevice = (slave message = m_address);
               isAnswer = (isNeedAnswer \<and> isForDevice \<and> isForThisDevice)
           in if \<not> isParityValid then andThen (answer isAnswer NAK) (\<lambda>_. ret None)
              else andThen (answer isAnswer ACK) (\<lambda>_. ret (Some message)))))"

definition readMessage_dataLength :: "Address \<Rightarrow> Message \<Rightarrow> (Message option) step" where
  "readMessage_dataLength m_address message0 =
     andThen (receiveBits DATA_LENGTH_BIT_SIZE) (\<lambda>v.
       let message = message0\<lparr>dataLength := ucast v\<rparr> in
       andThen receiveBit (\<lambda>parityBit.
         let isParityValid =
               checkParity (ucast (dataLength message)) DATA_LENGTH_BIT_SIZE parityBit in
         andThen receiveAckBit (\<lambda>ackBit.
           let isNeedAnswer = (ackBit = ACK);
               isForDevice = (broadcast message = FOR_DEVICE);
               isForThisDevice = (slave message = m_address);
               isAnswer = (isNeedAnswer \<and> isForDevice \<and> isForThisDevice)
           in if \<not> isParityValid then andThen (answer isAnswer NAK) (\<lambda>_. ret None)
              else andThen (answer isAnswer ACK) (\<lambda>_.
                     if dataLength message = 0 then ret (Some (message\<lparr>dataLength := 256\<rparr>))
                     else ret (Some message)))))"

text \<open>
  The body of the data loop, at index \<open>i\<close>. \<open>message.data[i] = ...\<close> writes one
  element of the 256-element array; an index outside it is the outcome \<open>OutOfBounds\<close>.
\<close>

definition readMessage_dataByte :: "Address \<Rightarrow> nat \<Rightarrow> Message \<Rightarrow> (Message option) step" where
  "readMessage_dataByte m_address i message0 =
     andThen (receiveBits DATA_BIT_SIZE) (\<lambda>v.
       if \<not> i < MAX_MESSAGE_SIZE then (\<lambda>w. (OutOfBounds, w))
       else
         let message = message0\<lparr>data := (data message0)[i := ucast v]\<rparr> in
         andThen receiveBit (\<lambda>parityBit.
           let isParityValid = checkParity (ucast (data message ! i)) DATA_BIT_SIZE parityBit in
           andThen receiveAckBit (\<lambda>ackBit.
             let isNeedAnswer = (ackBit = ACK);
                 isForDevice = (broadcast message = FOR_DEVICE);
                 isForThisDevice = (slave message = m_address);
                 isAnswer = (isNeedAnswer \<and> isForDevice \<and> isForThisDevice)
             in if \<not> isParityValid then andThen (answer isAnswer NAK) (\<lambda>_. ret None)
                else andThen (answer isAnswer ACK) (\<lambda>_. ret (Some message)))))"

text \<open>
  \<open>for (Size i = 0; i < message.dataLength; i++)\<close>. The counter \<open>i\<close> stays below a
  \<open>Size\<close> value and cannot wrap.
\<close>

function readMessage_dataLoop :: "Address \<Rightarrow> nat \<Rightarrow> Message \<Rightarrow> (Message option) step" where
  "readMessage_dataLoop m_address i message w =
     (if i < unat (dataLength message) then
        (case readMessage_dataByte m_address i message w of
           (Ret (Some message'), w') \<Rightarrow> readMessage_dataLoop m_address (i + 1) message' w'
         | (Ret None, w') \<Rightarrow> (Ret None, w')
         | (Blocked, w') \<Rightarrow> (Blocked, w')
         | (OutOfBounds, w') \<Rightarrow> (OutOfBounds, w'))
      else (Ret (Some message), w))"
  by pat_completeness auto
termination
  apply (relation "measure (\<lambda>(m_address, i, message, w). unat (dataLength message) - i)")
   apply simp
  apply (auto simp: readMessage_dataByte_def andThen_def ret_def answer_def act_def Let_def
              split: prod.splits res.splits if_splits)
  done

declare readMessage_dataLoop.simps [simp del]

definition orReturn :: "('a option) step \<Rightarrow> ('a \<Rightarrow> ('b option) step) \<Rightarrow> ('b option) step" where
  "orReturn f g = andThen f (\<lambda>r. case r of None \<Rightarrow> ret None | Some x \<Rightarrow> g x)"

definition readMessage :: "Address \<Rightarrow> (Message option) step" where
  "readMessage m_address w =
     (if \<not> isEnabled w then (Ret None, w)
      else
        andThen receiveStartBit (\<lambda>isStartBit.
          if \<not> isStartBit then ret None
          else
            andThen (readMessage_broadcast emptyMessage) (\<lambda>message.
            orReturn (readMessage_master message) (\<lambda>message.
            orReturn (readMessage_slave m_address message) (\<lambda>message.
            orReturn (readMessage_control m_address message) (\<lambda>message.
            orReturn (readMessage_dataLength m_address message) (\<lambda>message.
              readMessage_dataLoop m_address 0 message)))))) w)"

text \<open>
  \<open>writeMessage\<close>. \<open>while (not m_driver.isBusFree()) { delayUs(1); }\<close> first; every
  call of \<open>isBusFree\<close> that returns has read the line at least once.
\<close>

lemma isBusFree_loop_rxLevels:
  "isBusFree_loop t w = (r, w') \<Longrightarrow> length (rxLevels w') \<le> length (rxLevels w)"
proof (induction t w rule: isBusFree_loop.induct)
  case (1 startTime w)
  from "1.prems" show ?case
    apply (subst (asm) isBusFree_loop.simps)
    apply (auto simp: isBusLow_def isBusHigh_def andThen_def ret_def gpio_get_level_rx_def
                      getTimeUs_def Let_def
                split: list.splits if_splits dest!: "1.IH"[rotated -1])
    done
qed

function writeMessage_waitBusFree :: "unit step" where
  "writeMessage_waitBusFree w =
     (case isBusFree w of
        (Ret free, w') \<Rightarrow>
          (if \<not> free then writeMessage_waitBusFree (delayUs 1 w') else (Ret (), w'))
      | (Blocked, w') \<Rightarrow> (Blocked, w')
      | (OutOfBounds, w') \<Rightarrow> (OutOfBounds, w'))"
  by pat_completeness auto
termination
  apply (relation "measure (\<lambda>w. length (rxLevels w))")
   apply simp
  apply (auto simp: isBusFree_def isBusHigh_def andThen_def ret_def gpio_get_level_rx_def
                    getTimeUs_def delayUs_def emit_def
              split: list.splits if_splits
              dest!: isBusFree_loop_rxLevels isBusFree_loop_rxLevels[OF sym])
  done

declare writeMessage_waitBusFree.simps [simp del]

definition writeMessage_master :: "Message \<Rightarrow> world \<Rightarrow> world" where
  "writeMessage_master message w =
     (let w1 = transmitBits (master message) 12 w;
          parityBit = calculateParity (master message) 12
      in transmitBit parityBit w1)"

definition awaitAck :: "bool step" where
  "awaitAck = andThen receiveAckBit (\<lambda>ackBit. if ackBit = NAK then ret False else ret True)"

definition writeMessage_slave :: "Message \<Rightarrow> bool step" where
  "writeMessage_slave message =
     andThen (act (transmitBits (slave message) 12)) (\<lambda>_.
       let parityBit = calculateParity (slave message) 12 in
       andThen (act (transmitBit parityBit)) (\<lambda>_. awaitAck))"

definition writeMessage_control :: "Message \<Rightarrow> bool step" where
  "writeMessage_control message =
     andThen (act (transmitBits (ucast (control message)) 4)) (\<lambda>_.
       let parityBit = calculateParity (ucast (control message)) 4 in
       andThen (act (transmitBit parityBit)) (\<lambda>_. awaitAck))"

definition writeMessage_dataLength :: "Message \<Rightarrow> bool step" where
  "writeMessage_dataLength message =
     andThen (act (transmitBits (ucast (dataLength message)) 8)) (\<lambda>_.
       let parityBit = calculateParity (ucast (dataLength message)) 8 in
       andThen (act (transmitBit parityBit)) (\<lambda>_. awaitAck))"

text \<open>
  The body of the data loop reads \<open>message.data[i]\<close>; the message is the caller's, and
  nothing has checked its \<open>dataLength\<close> against the size of the array.
\<close>

definition writeMessage_dataByte :: "Message \<Rightarrow> nat \<Rightarrow> bool step" where
  "writeMessage_dataByte message i =
     (if \<not> i < MAX_MESSAGE_SIZE then (\<lambda>w. (OutOfBounds, w))
      else
        andThen (act (transmitBits (ucast (data message ! i)) 8)) (\<lambda>_.
          let parityBit = calculateParity (ucast (data message ! i)) 8 in
          andThen (act (transmitBit parityBit)) (\<lambda>_. awaitAck)))"

function writeMessage_dataLoop :: "Message \<Rightarrow> nat \<Rightarrow> bool step" where
  "writeMessage_dataLoop message i w =
     (if i < unat (dataLength message) then
        (case writeMessage_dataByte message i w of
           (Ret ok, w') \<Rightarrow>
             (if ok then writeMessage_dataLoop message (i + 1) w' else (Ret False, w'))
         | (Blocked, w') \<Rightarrow> (Blocked, w')
         | (OutOfBounds, w') \<Rightarrow> (OutOfBounds, w'))
      else (Ret True, w))"
  by pat_completeness auto
termination
  by (relation "measure (\<lambda>(message, i, w). unat (dataLength message) - i)") auto

declare writeMessage_dataLoop.simps [simp del]

definition orFalse :: "bool step \<Rightarrow> bool step \<Rightarrow> bool step" where
  "orFalse f g = andThen f (\<lambda>ok. if ok then g else ret False)"

definition writeMessage :: "Message \<Rightarrow> bool step" where
  "writeMessage message w =
     (if \<not> isEnabled w then (Ret False, w)
      else
        andThen writeMessage_waitBusFree (\<lambda>_.
        andThen (act transmitStartBit) (\<lambda>_.
        andThen (act (if broadcast message = BROADCAST then transmitBit 0 else transmitBit 1)) (\<lambda>_.
        andThen (act (writeMessage_master message)) (\<lambda>_.
          orFalse (writeMessage_slave message)
         (orFalse (writeMessage_control message)
         (orFalse (writeMessage_dataLength message)
                  (writeMessage_dataLoop message 0))))))) w)"

section \<open>Notions used in the statements\<close>

text \<open>
  The bits of an \<open>n\<close>-bit field in the order of the wire, most significant first:
  element \<open>i\<close> is bit \<open>n - 1 - i\<close> of the value.
\<close>

definition fieldBits :: "nat \<Rightarrow> Data \<Rightarrow> Bit list" where
  "fieldBits n v = map (\<lambda>i. if bit v (n - 1 - i) then 1 else 0) [0..<n]"

text \<open>The exclusive-or of bits \<open>0\<close> to \<open>n - 1\<close> of a value.\<close>

definition xorOfLowBits :: "Data \<Rightarrow> nat \<Rightarrow> Bit" where
  "xorOfLowBits v n = (if foldr (\<lambda>i p. bit v i \<noteq> p) [0..<n] False then 1 else 0)"

text \<open>What one call of \<open>transmitBit\<close> writes to the log.\<close>

definition bitPulse :: "Bit \<Rightarrow> event list" where
  "bitPulse b = [SetTx True, DelayUs (if b \<noteq> 0 then 20 else 33),
                 SetTx False, DelayUs (if b \<noteq> 0 then 19 else 6)]"

text \<open>
  A scripted bus: \<open>onBus widths w\<close> is the world \<open>w\<close> with a line that carries one
  pulse per element of \<open>widths\<close>, each seen high once and low once, and a clock that
  reads \<open>0\<close> at its rising edge and its width at its falling edge. \<open>highWidths\<close> reads
  from a log the durations for which the transmit pin was held high, and \<open>idle\<close> is an
  enabled controller on a silent bus.
\<close>

definition onBus :: "Time list \<Rightarrow> world \<Rightarrow> world" where
  "onBus widths w =
     w\<lparr>rxLevels := concat (map (\<lambda>_. [True, False]) widths),
       clockUs := concat (map (\<lambda>d. [0, d]) widths)\<rparr>"

fun highWidths :: "event list \<Rightarrow> Time list" where
  "highWidths (SetTx True # DelayUs d # es) = d # highWidths es"
| "highWidths (e # es) = highWidths es"
| "highWidths [] = []"

definition idle :: world where
  "idle = \<lparr>rxLevels = [], clockUs = [], events = [], m_isEnabled = True\<rparr>"

text \<open>A call is quiet when it writes nothing: the log and the enable flag stay.\<close>

definition quiet :: "world \<Rightarrow> world \<Rightarrow> bool" where
  "quiet w w' = (events w' = events w \<and> m_isEnabled w' = m_isEnabled w)"

text \<open>
  What the write path logs for one field: the pulses of its bits, most significant
  first, and the pulse of its parity bit; and for the start bit.
\<close>

definition fieldPulses :: "nat \<Rightarrow> Data \<Rightarrow> event list" where
  "fieldPulses n v = concat (map bitPulse (fieldBits n v)) @ bitPulse (calculateParity v n)"

definition startPulse :: "event list" where
  "startPulse = [SetTx True, DelayUs 171, SetTx False, DelayUs 19]"

definition broadcastBit :: "Message \<Rightarrow> Bit" where
  "broadcastBit m = (if broadcast m = BROADCAST then 0 else 1)"

definition writeHeader :: "Message \<Rightarrow> event list" where
  "writeHeader m = startPulse @ bitPulse (broadcastBit m) @ fieldPulses 12 (master m)"

text \<open>
  The bits received, in order, among the events of a log; and the events a call
  appended to the log, between the world before it and the world after it.
\<close>

fun gotBits :: "event list \<Rightarrow> Bit list" where
  "gotBits [] = []"
| "gotBits (GotBit b # es) = b # gotBits es"
| "gotBits (e # es) = gotBits es"

definition logged :: "world \<Rightarrow> world \<Rightarrow> event list" where
  "logged w w' = drop (length (events w)) (events w')"

text \<open>
  \<open>afterIdle w\<close> puts in front of the script of \<open>w\<close> a line seen low twice, 39
  microseconds apart: what one call of \<open>isBusFree\<close> needs to answer yes.
\<close>

definition afterIdle :: "world \<Rightarrow> world" where
  "afterIdle w = w\<lparr>rxLevels := False # False # rxLevels w, clockUs := 0 # 39 # clockUs w\<rparr>"

text \<open>The frame of the first example scenario of the specification.\<close>

definition demoMessage :: Message where
  "demoMessage = emptyMessage\<lparr>broadcast := FOR_DEVICE, master := 0x456, slave := 0x123,
     control := 2, dataLength := 1, data := (replicate 256 0)[0 := 0xAB]\<rparr>"

text \<open>
  The four blocks of \<open>writeMessage\<close> that wait for a handshake are one routine applied
  to four values: \<open>sendField\<close>. A received handshake bit other than 0 is a rejection;
  \<open>abortsOnNak r es\<close> says that the events \<open>es\<close> hold no rejection, or hold one only as
  their last element, with the result \<open>r\<close> a failure.
\<close>

definition sendField :: "Data \<Rightarrow> nat \<Rightarrow> bool step" where
  "sendField v n =
     andThen (act (transmitBits v n)) (\<lambda>_.
       let parityBit = calculateParity v n in
       andThen (act (transmitBit parityBit)) (\<lambda>_. awaitAck))"

definition rejected :: "event \<Rightarrow> bool" where
  "rejected e = (case e of GotBit a \<Rightarrow> a \<noteq> 0 | _ \<Rightarrow> False)"

definition abortsOnNak :: "bool res \<Rightarrow> event list \<Rightarrow> bool" where
  "abortsOnNak r es =
     ((\<forall>e\<in>set es. \<not> rejected e)
      \<or> (\<exists>es0 a. es = es0 @ [GotBit a] \<and> a \<noteq> 0 \<and> (\<forall>e\<in>set es0. \<not> rejected e) \<and> r = Ret False))"

section \<open>Sequencing and the calls that only read\<close>

lemma andThen_cases:
  assumes "andThen f g w = (r, w')"
  obtains (Ret) x w1 where "f w = (Ret x, w1)" "g x w1 = (r, w')"
        | (Blocked) "f w = (Blocked, w')" "r = Blocked"
        | (OutOfBounds) "f w = (OutOfBounds, w')" "r = OutOfBounds"
  using assms by (auto simp: andThen_def split: prod.splits res.splits)

lemma andThen_Ret: "f w = (Ret x, w1) \<Longrightarrow> andThen f g w = g x w1"
  by (simp add: andThen_def)

lemma andThen_Blocked: "f w = (Blocked, w1) \<Longrightarrow> andThen f g w = (Blocked, w1)"
  by (simp add: andThen_def)

lemma andThen_OutOfBounds: "f w = (OutOfBounds, w1) \<Longrightarrow> andThen f g w = (OutOfBounds, w1)"
  by (simp add: andThen_def)

lemma andThen_act [simp]: "andThen (act f) g w = g () (f w)"
  by (simp add: andThen_def act_def)

lemma andThen_ret [simp]: "andThen (ret x) g w = g x w"
  by (simp add: andThen_def ret_def)

lemma quiet_trans: "quiet a b \<Longrightarrow> quiet b c \<Longrightarrow> quiet a c"
  by (simp add: quiet_def)

lemma getTimeUs_quiet: "getTimeUs w = (r, w') \<Longrightarrow> quiet w w' \<and> r \<noteq> OutOfBounds"
  by (auto simp: getTimeUs_def quiet_def split: list.splits)

lemma waitBusLow_unfold:
  "waitBusLow w =
     (case rxLevels w of
        [] \<Rightarrow> (Blocked, w)
      | l # ls \<Rightarrow> if l then waitBusLow (w\<lparr>rxLevels := ls\<rparr>) else (Ret (), w\<lparr>rxLevels := ls\<rparr>))"
  by (subst waitBusLow.simps)
     (simp add: isBusHigh_def gpio_get_level_rx_def split: list.splits)

lemma waitBusHigh_unfold:
  "waitBusHigh w =
     (case rxLevels w of
        [] \<Rightarrow> (Blocked, w)
      | l # ls \<Rightarrow> if l then (Ret (), w\<lparr>rxLevels := ls\<rparr>) else waitBusHigh (w\<lparr>rxLevels := ls\<rparr>))"
  by (subst waitBusHigh.simps)
     (simp add: isBusLow_def andThen_def ret_def isBusHigh_def gpio_get_level_rx_def
           split: list.splits)

text \<open>
  The wait loops in closed form: \<open>waitBusLow\<close> drops the high samples and the first low
  one, \<open>waitBusHigh\<close> the low samples and the first high one.
\<close>

lemma waitBusLow_closed:
  "waitBusLow w =
     (case dropWhile (\<lambda>l. l) (rxLevels w) of
        [] \<Rightarrow> (Blocked, w\<lparr>rxLevels := []\<rparr>)
      | l # ls \<Rightarrow> (Ret (), w\<lparr>rxLevels := ls\<rparr>))"
proof (induction "rxLevels w" arbitrary: w)
  case Nil
  then show ?case by (subst waitBusLow_unfold) simp
next
  case (Cons l ls)
  from Cons(2)[symmetric] Cons(1)[of "w\<lparr>rxLevels := ls\<rparr>"] show ?case
    by (subst waitBusLow_unfold, cases l; cases "dropWhile (\<lambda>l. l) ls")
       (simp_all del: dropWhile_eq_Nil_conv)
qed

lemma waitBusHigh_closed:
  "waitBusHigh w =
     (case dropWhile (\<lambda>l. \<not> l) (rxLevels w) of
        [] \<Rightarrow> (Blocked, w\<lparr>rxLevels := []\<rparr>)
      | l # ls \<Rightarrow> (Ret (), w\<lparr>rxLevels := ls\<rparr>))"
proof (induction "rxLevels w" arbitrary: w)
  case Nil
  then show ?case by (subst waitBusHigh_unfold) simp
next
  case (Cons l ls)
  from Cons(2)[symmetric] Cons(1)[of "w\<lparr>rxLevels := ls\<rparr>"] show ?case
    by (subst waitBusHigh_unfold, cases l; cases "dropWhile (\<lambda>l. \<not> l) ls")
       (simp_all del: dropWhile_eq_Nil_conv)
qed

lemma waitBusLow_quiet: "waitBusLow w = (r, w') \<Longrightarrow> quiet w w' \<and> r \<noteq> OutOfBounds"
  by (auto simp: waitBusLow_closed quiet_def split: list.splits)

lemma waitBusHigh_quiet: "waitBusHigh w = (r, w') \<Longrightarrow> quiet w w' \<and> r \<noteq> OutOfBounds"
  by (auto simp: waitBusHigh_closed quiet_def split: list.splits)

section \<open>Decoding one pulse\<close>

lemma sint_sub64:
  fixes w :: Time
  assumes "- (2 ^ 63) \<le> sint w - sint c" "sint w - sint c < 2 ^ 63"
  shows "sint (w - c) = sint w - sint c"
  using assms by (simp add: sint_word_ariths signed_take_bit_int_eq_self)

lemma sint_neg64:
  fixes w :: Time
  assumes "- (2 ^ 63) < sint w"
  shows "sint (- w) = - sint w"
proof -
  have "sint w < 2 ^ 63" using sint_lt[of w] by simp
  with assms show ?thesis
    by (simp add: sint_word_ariths signed_take_bit_int_eq_self)
qed

lemma sint_abs64:
  fixes w :: Time
  assumes "- (2 ^ 63) < sint w"
  shows "sint (abs64 w) = \<bar>sint w\<bar>"
  using assms by (auto simp: abs64_def word_sless_alt sint_neg64)

lemma decodeBit_sint:
  assumes "- (2 ^ 63) + 33 < sint w"
  shows "decodeBit w = (if \<bar>sint w - 20\<bar> < \<bar>sint w - 33\<bar> then 1 else 0)"
proof -
  have up: "sint w < 2 ^ 63" using sint_lt[of w] by simp
  have s33: "sint (w - 33) = sint w - 33"
    using assms up by (subst sint_sub64) simp_all
  have s20: "sint (w - 20) = sint w - 20"
    using assms up by (subst sint_sub64) simp_all
  have a33: "sint (abs64 (w - 33)) = \<bar>sint w - 33\<bar>"
    using assms by (subst sint_abs64) (simp_all add: s33)
  have a20: "sint (abs64 (w - 20)) = \<bar>sint w - 20\<bar>"
    using assms by (subst sint_abs64) (simp_all add: s20)
  show ?thesis
    by (simp add: decodeBit_def Let_def DATA_BIT_0_HIGH_US_def DATA_BIT_1_HIGH_US_def
                  word_sless_alt a33 a20)
qed

lemma decodeBit_01: "decodeBit d = 0 \<or> decodeBit d = 1"
  by (simp add: decodeBit_def Let_def)

lemma receiveBit_cases:
  assumes "receiveBit w = (r, w')"
  obtains (Ret) b where "r = Ret b" "b = 0 \<or> b = 1" "events w' = events w @ [GotBit b]"
            "m_isEnabled w' = m_isEnabled w"
        | (Blocked) "r = Blocked" "quiet w w'"
proof -
  from assms have "(\<exists>b. r = Ret b \<and> (b = 0 \<or> b = 1) \<and> events w' = events w @ [GotBit b]
                        \<and> m_isEnabled w' = m_isEnabled w)
                   \<or> (r = Blocked \<and> quiet w w')"
    unfolding receiveBit_def
    apply (elim andThen_cases)
    apply (auto simp: ret_def emit_def Let_def quiet_def decodeBit_01
                dest!: waitBusHigh_quiet waitBusLow_quiet getTimeUs_quiet)
    done
  then show ?thesis using that by blast
qed

lemma receiveBit_measured:
  assumes "receiveBit w = (Ret b, w')"
  shows "\<exists>startTime stopTime rest. clockUs w = startTime # stopTime # rest
           \<and> clockUs w' = rest \<and> b = decodeBit (stopTime - startTime)"
  using assms unfolding receiveBit_def
  by (auto simp: andThen_def waitBusHigh_closed waitBusLow_closed getTimeUs_def ret_def act_def
                 emit_def Let_def
           split: list.splits prod.splits res.splits if_splits)

text \<open>
  C8. The width that \<open>receiveBit\<close> measures is the difference of its two clock
  readings. Whenever that width is a value for which the two subtractions and
  \<open>std::abs\<close> do not overflow (every width from \<open>-2^63 + 34\<close> up, so every width a
  monotonic clock can give), the bit returned is 1 exactly when the width is strictly
  nearer to 20 than to 33, and 0 otherwise: the nearer of the two canonical high
  durations, and 0 when the distances are equal.
\<close>

theorem receiveBit_nearest_width:
  assumes "receiveBit w = (Ret b, w')"
  shows "\<exists>startTime stopTime rest. clockUs w = startTime # stopTime # rest \<and>
           (- (2 ^ 63) + 33 < sint (stopTime - startTime) \<longrightarrow>
              b = (if \<bar>sint (stopTime - startTime) - 20\<bar> < \<bar>sint (stopTime - startTime) - 33\<bar>
                   then 1 else 0))"
proof -
  from receiveBit_measured[OF assms] obtain startTime stopTime rest where
    c: "clockUs w = startTime # stopTime # rest" and b: "b = decodeBit (stopTime - startTime)"
    by blast
  from b have "- (2 ^ 63) + 33 < sint (stopTime - startTime) \<longrightarrow>
              b = (if \<bar>sint (stopTime - startTime) - 20\<bar> < \<bar>sint (stopTime - startTime) - 33\<bar>
                   then 1 else 0)"
    by (simp add: decodeBit_sint)
  with c show ?thesis by blast
qed

theorem receiveBit_nearest_width_witness:
  "receiveBit \<lparr>rxLevels = [False, True, True, False], clockUs = [100, 126], events = [],
                 m_isEnabled = True\<rparr>
     = (Ret 1, \<lparr>rxLevels = [], clockUs = [], events = [GotBit 1], m_isEnabled = True\<rparr>)
   \<and> - (2 ^ 63) + 33 < sint (126 - 100 :: Time)
   \<and> \<bar>sint (126 - 100 :: Time) - 20\<bar> < \<bar>sint (126 - 100 :: Time) - 33\<bar>"
proof -
  have run: "receiveBit \<lparr>rxLevels = [False, True, True, False], clockUs = [100, 126],
                           events = [], m_isEnabled = True\<rparr>
     = (Ret 1, \<lparr>rxLevels = [], clockUs = [], events = [GotBit 1], m_isEnabled = True\<rparr>)"
    by code_simp
  from receiveBit_nearest_width[OF run] show ?thesis
    using run by (simp split: if_splits)
qed

section \<open>Receiving and transmitting a field\<close>

lemma bit_shifted_one:
  "bit (ucast (push_bit s (if b \<noteq> 0 then 1 else 0 :: cint)) :: Data) p \<longleftrightarrow> (b \<noteq> 0 \<and> p = s \<and> p < 16)"
  by (auto simp: bit_simps)

lemma receiveBits_loop_trace:
  assumes "receiveBits_loop n i acc w = (r, w')"
  shows "m_isEnabled w' = m_isEnabled w \<and>
         (\<exists>bs. events w' = events w @ map GotBit bs \<and> set bs \<subseteq> {0, 1} \<and>
            (case r of
               Ret v \<Rightarrow> length bs = n - i \<and>
                 (\<forall>p. bit v p \<longleftrightarrow> bit acc p \<or> (p < 16 \<and> p < n - i \<and> bs ! (n - 1 - i - p) \<noteq> 0))
             | Blocked \<Rightarrow> length bs < n - i
             | OutOfBounds \<Rightarrow> False))"
  using assms
proof (induction "n - i" arbitrary: i acc w)
  case 0
  then show ?case
    by (subst (asm) receiveBits_loop.simps) auto
next
  case (Suc k)
  then have lt: "i < n" and k: "k = n - (i + 1)" by simp_all
  obtain r1 w1 where rb: "receiveBit w = (r1, w1)" by (cases "receiveBit w")
  from rb show ?case
  proof (cases rule: receiveBit_cases)
    case (Ret b)
    let ?acc = "acc OR ucast (push_bit (n - 1 - i) (if b \<noteq> 0 then 1 else 0 :: cint))"
    from Suc.prems lt rb Ret have rec: "receiveBits_loop n (i + 1) ?acc w1 = (r, w')"
      by (subst (asm) receiveBits_loop.simps) (simp add: Let_def)
    from Suc.hyps(1)[OF k rec] obtain bs where
      en: "m_isEnabled w' = m_isEnabled w1" and
      ev: "events w' = events w1 @ map GotBit bs" and b01: "set bs \<subseteq> {0, 1}" and
      c: "(case r of
               Ret v \<Rightarrow> length bs = n - (i + 1) \<and>
                 (\<forall>p. bit v p \<longleftrightarrow> bit ?acc p \<or> (p < 16 \<and> p < n - (i + 1) \<and> bs ! (n - 1 - (i + 1) - p) \<noteq> 0))
             | Blocked \<Rightarrow> length bs < n - (i + 1)
             | OutOfBounds \<Rightarrow> False)"
      by blast
    have "events w' = events w @ map GotBit (b # bs)" using ev Ret by simp
    moreover have "set (b # bs) \<subseteq> {0, 1}" using b01 Ret by auto
    moreover have "(case r of
               Ret v \<Rightarrow> length (b # bs) = n - i \<and>
                 (\<forall>p. bit v p \<longleftrightarrow> bit acc p \<or> (p < 16 \<and> p < n - i \<and> (b # bs) ! (n - 1 - i - p) \<noteq> 0))
             | Blocked \<Rightarrow> length (b # bs) < n - i
             | OutOfBounds \<Rightarrow> False)"
    proof (cases r)
      case (Ret v)
      with c have len: "length bs = n - (i + 1)" and
        bits: "\<And>p. bit v p \<longleftrightarrow> bit ?acc p \<or> (p < 16 \<and> p < n - (i + 1) \<and> bs ! (n - 1 - (i + 1) - p) \<noteq> 0)"
        by simp_all
      have "bit v p \<longleftrightarrow> bit acc p \<or> (p < 16 \<and> p < n - i \<and> (b # bs) ! (n - 1 - i - p) \<noteq> 0)" for p
      proof (cases "p = n - 1 - i")
        case True
        then show ?thesis using lt by (auto simp: bits bit_or_iff bit_shifted_one)
      next
        case False
        then show ?thesis using lt
          by (cases "p < n - 1 - i")
             (auto simp: bits bit_or_iff bit_shifted_one nth_Cons' )
      qed
      with len lt Ret show ?thesis by simp
    next
      case Blocked
      with c lt show ?thesis by simp
    next
      case OutOfBounds
      with c show ?thesis by simp
    qed
    ultimately show ?thesis using en Ret by blast
  next
    case Blocked
    with Suc.prems lt rb have "r = Blocked" "w' = w1"
      by (subst (asm) receiveBits_loop.simps, simp)+
    with Blocked lt show ?thesis by (auto simp: quiet_def)
  qed
qed

lemma receiveBits_Ret:
  assumes "receiveBits n w = (Ret v, w')" and n: "n \<le> 16"
  shows "events w' = events w @ map GotBit (fieldBits n v)"
    and "m_isEnabled w' = m_isEnabled w"
    and "unat v < 2 ^ n"
proof -
  from receiveBits_loop_trace[OF assms(1)[unfolded receiveBits_def]] obtain bs where
    en: "m_isEnabled w' = m_isEnabled w" and ev: "events w' = events w @ map GotBit bs" and
    b01: "set bs \<subseteq> {0, 1}" and len: "length bs = n" and
    bits: "\<And>p. bit v p \<longleftrightarrow> (p < 16 \<and> p < n \<and> bs ! (n - 1 - p) \<noteq> 0)"
    by auto
  have "bs = fieldBits n v"
  proof (rule nth_equalityI)
    show "length bs = length (fieldBits n v)" by (simp add: len fieldBits_def)
  next
    fix i assume "i < length bs"
    then have i: "i < n" by (simp add: len)
    then have "bs ! i \<in> {0, 1}" using b01 len by (metis nth_mem subsetD)
    moreover have "bit v (n - 1 - i) \<longleftrightarrow> bs ! i \<noteq> 0"
      using i n by (auto simp: bits)
    ultimately show "bs ! i = fieldBits n v ! i"
      using i by (auto simp: fieldBits_def)
  qed
  with ev show "events w' = events w @ map GotBit (fieldBits n v)" by simp
  show "m_isEnabled w' = m_isEnabled w" by (rule en)
  have "take_bit n v = v"
    by (rule bit_word_eqI) (auto simp: bit_simps bits)
  then have "unat v = take_bit n (unat v)"
    by (metis unsigned_take_bit_eq)
  then show "unat v < 2 ^ n"
    by (metis take_bit_nat_less_exp)
qed

lemma receiveBits_other:
  assumes "receiveBits n w = (r, w')" and "\<forall>v. r \<noteq> Ret v"
  shows "r = Blocked \<and> m_isEnabled w' = m_isEnabled w \<and>
         (\<exists>bs. events w' = events w @ map GotBit bs \<and> length bs < n)"
  using receiveBits_loop_trace[OF assms(1)[unfolded receiveBits_def]] assms(2)
  by (cases r) auto

lemma transmitBit_events: "transmitBit b w = w\<lparr>events := events w @ bitPulse b\<rparr>"
  by (simp add: transmitBit_def bitPulse_def delayUs_def gpio_set_level_tx_def emit_def Let_def
        DATA_BIT_1_HIGH_US_def DATA_BIT_0_HIGH_US_def DATA_BIT_1_LOW_US_def DATA_BIT_0_LOW_US_def
        DATA_BIT_TOTAL_US_def)

lemma shifted_bit: "(ucast (drop_bit s (ucast (v :: Data) :: cint) AND 1) :: Bit) = (if bit v s then 1 else 0)"
proof -
  have "drop_bit s (ucast v :: cint) AND 1 = of_bool (bit (ucast v :: cint) s)"
    by (simp add: and_one_eq mod_2_eq_odd bit_iff_odd_drop_bit)
  also have "bit (ucast v :: cint) s = bit v s"
    by (auto simp: bit_ucast_iff dest: bit_imp_le_length)
  finally show ?thesis by simp
qed

lemma transmitBits_loop_events:
  "i \<le> n \<Longrightarrow> transmitBits_loop v n i w =
     w\<lparr>events := events w @ concat (map bitPulse (drop i (fieldBits n v)))\<rparr>"
proof (induction "n - i" arbitrary: i w)
  case 0
  then show ?case by (subst transmitBits_loop.simps) (simp add: fieldBits_def)
next
  case (Suc k)
  then have lt: "i < n" and k: "k = n - Suc i" and le: "Suc i \<le> n" by simp_all
  have d: "drop i (fieldBits n v) = (if bit v (n - 1 - i) then 1 else 0) # drop (Suc i) (fieldBits n v)"
    using lt by (simp add: fieldBits_def Cons_nth_drop_Suc[symmetric] del: upt_Suc)
  show ?case
    by (subst transmitBits_loop.simps)
       (simp add: lt Let_def shifted_bit Suc.hyps(1)[OF k le] d transmitBit_events)
qed

lemma transmitBits_events:
  "transmitBits v n w = w\<lparr>events := events w @ concat (map bitPulse (fieldBits n v))\<rparr>"
  by (simp add: transmitBits_def transmitBits_loop_events)

lemma onBus_fields [simp]:
  "events (onBus ds w) = events w" "m_isEnabled (onBus ds w) = m_isEnabled w"
  by (simp_all add: onBus_def)

lemma onBus_emit: "emit e (onBus ds w) = onBus ds (emit e w)"
  by (simp add: onBus_def emit_def)

lemma onBus_events_update:
  "(onBus ds w)\<lparr>events := es\<rparr> = onBus ds (w\<lparr>events := es\<rparr>)"
  by (simp add: onBus_def)

lemma receiveBit_onBus:
  "receiveBit (onBus (d # ds) w) = (Ret (decodeBit d), onBus ds (emit (GotBit (decodeBit d)) w))"
  by (simp add: receiveBit_def andThen_def waitBusHigh_closed waitBusLow_closed getTimeUs_def
                onBus_def emit_def Let_def ret_def act_def)

lemma receiveBit_onBus_Nil: "receiveBit (onBus [] w) = (Blocked, onBus [] w)"
  by (simp add: receiveBit_def andThen_def waitBusHigh_closed onBus_def)

lemma receiveBits_loop_onBus:
  "n - i \<le> length ds \<Longrightarrow>
   \<exists>x. receiveBits_loop n i acc (onBus ds w) =
         (Ret x, onBus (drop (n - i) ds)
                   (w\<lparr>events := events w @ map (\<lambda>d. GotBit (decodeBit d)) (take (n - i) ds)\<rparr>))"
proof (induction "n - i" arbitrary: i acc w ds)
  case 0
  then show ?case by (subst receiveBits_loop.simps) simp
next
  case (Suc k)
  then have lt: "i < n" and k: "k = n - Suc i" by simp_all
  from Suc obtain d ds' where ds: "ds = d # ds'" by (cases ds) auto
  with Suc have le: "n - Suc i \<le> length ds'" by simp
  have s: "n - i = Suc (n - Suc i)" using lt by simp
  let ?acc = "acc OR ucast (push_bit (n - 1 - i) (if decodeBit d \<noteq> 0 then 1 else 0 :: cint))"
  let ?w = "emit (GotBit (decodeBit d)) w"
  from Suc.hyps(1)[OF k le, of ?acc ?w] obtain x where
    x: "receiveBits_loop n (Suc i) ?acc (onBus ds' ?w) =
         (Ret x, onBus (drop (n - Suc i) ds')
                   (?w\<lparr>events := events ?w @ map (\<lambda>d. GotBit (decodeBit d)) (take (n - Suc i) ds')\<rparr>))"
    by blast
  have step: "receiveBits_loop n i acc (onBus (d # ds') w) =
              receiveBits_loop n (Suc i) ?acc (onBus ds' ?w)"
    by (subst receiveBits_loop.simps) (simp add: lt receiveBit_onBus Let_def)
  show ?case
    unfolding ds step x by (simp add: s emit_def)
qed

lemma highWidths_bitPulses:
  "highWidths (concat (map bitPulse bs)) = map (\<lambda>b. if b \<noteq> 0 then 20 else 33) bs"
  by (induction bs) (simp_all add: bitPulse_def)

lemma decodeBit_canonical: "decodeBit 20 = 1" "decodeBit 33 = 0"
  by (simp_all add: decodeBit_def abs64_def DATA_BIT_0_HIGH_US_def DATA_BIT_1_HIGH_US_def
                    word_sless_alt)

lemma decode_canonical_width:
  "b = 0 \<or> b = 1 \<Longrightarrow> decodeBit (if b \<noteq> 0 then 20 else 33) = b"
  by (auto simp: decodeBit_canonical)

lemma fieldBits_01: "set (fieldBits n v) \<subseteq> {0, 1}"
  by (auto simp: fieldBits_def)

lemma length_fieldBits [simp]: "length (fieldBits n v) = n"
  by (simp add: fieldBits_def)

lemma upper_bits_unset:
  fixes v :: Data
  assumes "unat v < 2 ^ n" "n \<le> p"
  shows "\<not> bit v p"
proof -
  from assms(1) have "take_bit n (unat v) = unat v" by (simp add: take_bit_nat_eq_self)
  then have "unat (take_bit n v) = unat v" by (simp add: unsigned_take_bit_eq)
  then have "take_bit n v = v" by (simp add: word_unat_eq_iff)
  then have "bit v p = bit (take_bit n v) p" by simp
  also have "\<dots> = (p < n \<and> bit v p)" by (simp add: bit_take_bit_iff)
  finally show ?thesis using assms(2) by simp
qed

lemma fieldBits_inj:
  assumes "unat x < 2 ^ n" "unat v < 2 ^ n" "fieldBits n x = fieldBits n v"
  shows "x = v"
proof (rule bit_word_eqI)
  fix p assume "p < LENGTH(16)"
  show "bit x p = bit v p"
  proof (cases "p < n")
    case True
    then have i: "n - 1 - p < n" "n - 1 - (n - 1 - p) = p" by simp_all
    from assms(3) have "fieldBits n x ! (n - 1 - p) = fieldBits n v ! (n - 1 - p)" by simp
    with i show ?thesis by (simp add: fieldBits_def split: if_splits)
  next
    case False
    then show ?thesis using assms(1,2) by (simp add: upper_bits_unset)
  qed
qed

lemma receiveBits_onBus:
  assumes "n \<le> 16" "unat v < 2 ^ n"
  shows "receiveBits n (onBus (map (\<lambda>b. if b \<noteq> 0 then 20 else 33) (fieldBits n v) @ ds) w) =
           (Ret v, onBus ds (w\<lparr>events := events w @ map GotBit (fieldBits n v)\<rparr>))"
proof -
  let ?ws = "map (\<lambda>b. if b \<noteq> 0 then 20 else 33 :: Time) (fieldBits n v)"
  have dec: "map (\<lambda>d. GotBit (decodeBit d)) ?ws = map GotBit (fieldBits n v)"
    using fieldBits_01[of n v] by (auto simp: decodeBit_canonical)
  have tk: "take (n - 0) (?ws @ ds) = ?ws" "drop (n - 0) (?ws @ ds) = ds" by simp_all
  have "n - 0 \<le> length (?ws @ ds)" by simp
  from receiveBits_loop_onBus[OF this, of 0 w] obtain x where
    "receiveBits_loop n 0 0 (onBus (?ws @ ds) w) =
          (Ret x, onBus (drop (n - 0) (?ws @ ds))
             (w\<lparr>events := events w @ map (\<lambda>d. GotBit (decodeBit d)) (take (n - 0) (?ws @ ds))\<rparr>))"
    by blast
  then have x: "receiveBits n (onBus (?ws @ ds) w) =
          (Ret x, onBus ds (w\<lparr>events := events w @ map GotBit (fieldBits n v)\<rparr>))"
    unfolding tk dec receiveBits_def .
  from receiveBits_Ret[OF x assms(1)] have
    "map GotBit (fieldBits n x) = map GotBit (fieldBits n v)" and "unat x < 2 ^ n"
    by simp_all
  then have "fieldBits n x = fieldBits n v"
    by (simp add: inj_map_eq_map inj_on_def)
  with \<open>unat x < 2 ^ n\<close> assms(2) have "x = v" by (rule fieldBits_inj[rotated 2, rotated])
  with x show ?thesis by simp
qed

text \<open>
  C7. For every width up to 16 bits (so for 1, 4, 8 and 12): the bits that
  \<open>receiveBits n\<close> logs while it assembles \<open>x\<close> are the bits of \<open>x\<close> from bit \<open>n - 1\<close>
  down to bit \<open>0\<close>, so the bit received at turn \<open>i\<close> is bit \<open>n - 1 - i\<close> of the result;
  \<open>transmitBits v n\<close> writes one pulse per bit in the same order; and a receiver that
  measures the high durations \<open>transmitBits v n\<close> wrote gets \<open>v\<close> back, for every \<open>v\<close>
  below \<open>2 ^ n\<close>.
\<close>

theorem bit_fields_msb_first_round_trip:
  assumes "n \<le> 16" and "unat v < 2 ^ n" and "receiveBits n w = (Ret x, w')"
  shows "events w' = events w @ map GotBit (fieldBits n x)
       \<and> transmitBits v n w0 = w0\<lparr>events := events w0 @ concat (map bitPulse (fieldBits n v))\<rparr>
       \<and> fst (receiveBits n (onBus (highWidths (events (transmitBits v n idle))) idle)) = Ret v"
proof -
  have "fst (receiveBits n (onBus (highWidths (events (transmitBits v n idle))) idle)) = Ret v"
    using receiveBits_onBus[OF assms(1,2), of "[]" idle]
    by (simp add: transmitBits_events highWidths_bitPulses idle_def)
  with receiveBits_Ret(1)[OF assms(3,1)] transmitBits_events show ?thesis by simp
qed

theorem bit_fields_msb_first_round_trip_witness:
  "(4::nat) \<le> 16 \<and> unat (0xA :: Data) < 2 ^ 4
   \<and> receiveBits 4 (onBus [20, 33, 20, 33] idle)
        = (Ret 0xA, idle\<lparr>events := [GotBit 1, GotBit 0, GotBit 1, GotBit 0]\<rparr>)
   \<and> fieldBits 4 0xA = [1, 0, 1, 0]
   \<and> highWidths (events (transmitBits 0xA 4 idle)) = [20, 33, 20, 33]
   \<and> fst (receiveBits 4 (onBus (highWidths (events (transmitBits 0xA 4 idle))) idle)) = Ret 0xA"
proof -
  have run: "receiveBits 4 (onBus [20, 33, 20, 33] idle)
        = (Ret 0xA, idle\<lparr>events := [GotBit 1, GotBit 0, GotBit 1, GotBit 0]\<rparr>)"
    by code_simp
  have fb: "fieldBits 4 0xA = [1, 0, 1, 0]" by code_simp
  have hw: "highWidths (events (transmitBits 0xA 4 idle)) = [20, 33, 20, 33]" by code_simp
  from bit_fields_msb_first_round_trip[of 4 "0xA", OF _ _ run, of idle] run fb hw
  show ?thesis by simp
qed

section \<open>Parity\<close>

lemma low_bit_of: "drop_bit s (ucast (v :: Data) :: cint) AND 1 = (if bit v s then 1 else 0)"
proof -
  have "drop_bit s (ucast v :: cint) AND 1 = of_bool (bit (ucast v :: cint) s)"
    by (simp add: and_one_eq mod_2_eq_odd bit_iff_odd_drop_bit)
  also have "bit (ucast v :: cint) s = bit v s"
    by (auto simp: bit_ucast_iff dest: bit_imp_le_length)
  finally show ?thesis by simp
qed

lemma parity_step:
  "(ucast ((ucast (p :: Bit) :: cint) XOR (drop_bit i (ucast (dat :: Data) :: cint) AND 1)) :: Bit)
     = p XOR (if bit dat i then 1 else 0)"
  unfolding low_bit_of
  by (rule bit_word_eqI) (auto simp: bit_simps)

lemma xor_twice: "((p :: Bit) XOR a) XOR a = p"
  by (simp add: xor.assoc)

lemma calculateParity_loop_closed:
  "calculateParity_loop dat sz i p =
     p XOR (if foldr (\<lambda>j q. bit dat j \<noteq> q) [i..<sz] False then 1 else 0)"
proof (induction "sz - i" arbitrary: i p)
  case 0
  then show ?case by (subst calculateParity_loop.simps) simp
next
  case (Suc k)
  then have lt: "i < sz" and k: "k = sz - Suc i" by simp_all
  have u: "[i..<sz] = i # [Suc i..<sz]" using lt by (simp add: upt_rec)
  show ?case
    by (subst calculateParity_loop.simps)
       (simp add: lt parity_step Suc.hyps(1)[OF k] u xor_twice)
qed

lemma calculateParity_xor: "calculateParity v n = xorOfLowBits v n"
  by (simp add: calculateParity_def calculateParity_loop_closed xorOfLowBits_def)

lemma foldr_xor_flip:
  "distinct xs \<Longrightarrow>
   foldr (\<lambda>j q. (f j \<noteq> (j = k)) \<noteq> q) xs False = (foldr (\<lambda>j q. f j \<noteq> q) xs False \<noteq> (k \<in> set xs))"
  by (induction xs) auto

lemma bit_flip: "k < 16 \<Longrightarrow> bit ((v :: Data) XOR push_bit k 1) j \<longleftrightarrow> (bit v j \<noteq> (j = k))"
  by (auto simp: bit_simps)

lemma calculateParity_flip:
  assumes "k < n" "n \<le> 16"
  shows "calculateParity (v XOR push_bit k 1) n = calculateParity v n XOR 1"
proof -
  have k16: "k < 16" using assms by simp
  have "foldr (\<lambda>j q. bit (v XOR push_bit k 1) j \<noteq> q) [0..<n] False
        = (foldr (\<lambda>j q. bit v j \<noteq> q) [0..<n] False \<noteq> (k \<in> set [0..<n]))"
    unfolding bit_flip[OF k16] by (rule foldr_xor_flip) simp
  then show ?thesis using assms
    by (simp add: calculateParity_def calculateParity_loop_closed)
qed

lemma xor_one_neq: "(a :: Bit) XOR 1 \<noteq> a"
proof
  assume "a XOR 1 = a"
  then have "even (a XOR 1) = even a" by simp
  then show False by (simp add: even_xor_iff)
qed

text \<open>
  C6. \<open>calculateParity v n\<close> is the exclusive-or of the \<open>n\<close> low bits of \<open>v\<close>. Hence,
  for every width up to 16 (so for 4, 8 and 12) and every value, \<open>checkParity\<close>
  accepts the parity computed from the value itself, and rejects it once any one of
  the \<open>n\<close> low bits of the value is flipped.
\<close>

theorem calculateParity_is_xor_of_low_bits:
  assumes "n \<le> 16" "k < n"
  shows "calculateParity v n = xorOfLowBits v n
       \<and> checkParity v n (calculateParity v n)
       \<and> \<not> checkParity (v XOR push_bit k 1) n (calculateParity v n)"
proof -
  have f: "calculateParity (v XOR push_bit k 1) n = calculateParity v n XOR 1"
    by (rule calculateParity_flip[OF assms(2,1)])
  have "\<not> checkParity (v XOR push_bit k 1) n (calculateParity v n)"
    unfolding checkParity_def f by (rule xor_one_neq)
  moreover have "checkParity v n (calculateParity v n)"
    by (simp add: checkParity_def)
  ultimately show ?thesis using calculateParity_xor by blast
qed

theorem calculateParity_is_xor_of_low_bits_witness:
  "(8::nat) \<le> 16 \<and> (3::nat) < 8
   \<and> calculateParity 0xAB 8 = xorOfLowBits 0xAB 8
   \<and> calculateParity 0xAB 8 = 1
   \<and> checkParity 0xAB 8 (calculateParity 0xAB 8)
   \<and> \<not> checkParity (0xAB XOR push_bit 3 1) 8 (calculateParity 0xAB 8)"
proof -
  have "calculateParity 0xAB 8 = 1" by code_simp
  with calculateParity_is_xor_of_low_bits[of 8 3 "0xAB"] show ?thesis by simp
qed

section \<open>The write path\<close>

lemma isBusFree_loop_quiet:
  "isBusFree_loop t w = (r, w') \<Longrightarrow> quiet w w' \<and> r \<noteq> OutOfBounds"
proof (induction "length (rxLevels w)" arbitrary: w rule: less_induct)
  case less
  show ?case
  proof (cases "rxLevels w")
    case Nil
    with less.prems show ?thesis
      by (subst (asm) isBusFree_loop.simps)
         (auto simp: isBusLow_def isBusHigh_def andThen_def ret_def gpio_get_level_rx_def quiet_def)
  next
    case (Cons l ls)
    show ?thesis
    proof (cases "clockUs w")
      case Nil
      with Cons less.prems show ?thesis
        by (subst (asm) isBusFree_loop.simps)
           (auto simp: isBusLow_def isBusHigh_def andThen_def ret_def gpio_get_level_rx_def
                       getTimeUs_def quiet_def split: if_splits)
    next
      case (Cons c cs)
      let ?w = "w\<lparr>rxLevels := ls, clockUs := cs\<rparr>"
      have small: "length (rxLevels ?w) < length (rxLevels w)" using \<open>rxLevels w = l # ls\<close> by simp
      from less.prems \<open>rxLevels w = l # ls\<close> Cons
      have "(r, w') = (Ret False, w\<lparr>rxLevels := ls\<rparr>) \<or> (r, w') = (Ret True, ?w)
            \<or> isBusFree_loop t ?w = (r, w')"
        by (subst (asm) isBusFree_loop.simps)
           (auto simp: isBusLow_def isBusHigh_def andThen_def ret_def gpio_get_level_rx_def
                       getTimeUs_def Let_def split: if_splits)
      then show ?thesis
        using less.hyps[OF small] by (auto simp: quiet_def)
    qed
  qed
qed

lemma isBusFree_loop_frame:
  "isBusFree_loop t w = (r, w') \<Longrightarrow>
     quiet w w' \<and> r \<noteq> OutOfBounds \<and> length (rxLevels w') \<le> length (rxLevels w)"
  using isBusFree_loop_quiet isBusFree_loop_rxLevels by blast

lemma isBusFree_cases:
  assumes "isBusFree w = (r, w')"
  shows "quiet w w' \<and> r \<noteq> OutOfBounds \<and> (r \<noteq> Blocked \<longrightarrow> length (rxLevels w') < length (rxLevels w))"
  using assms unfolding isBusFree_def andThen_def
  by (auto simp: isBusHigh_def gpio_get_level_rx_def getTimeUs_def quiet_def ret_def
           split: list.splits if_splits prod.splits res.splits
           dest!: isBusFree_loop_frame)

lemma waitBusFree_cases:
  "writeMessage_waitBusFree w = (r, w') \<Longrightarrow>
     (\<exists>k. events w' = events w @ replicate k (DelayUs 1)) \<and> m_isEnabled w' = m_isEnabled w
     \<and> (r = Ret () \<or> r = Blocked)"
proof (induction "length (rxLevels w)" arbitrary: w rule: less_induct)
  case less
  obtain r1 w1 where f: "isBusFree w = (r1, w1)" by (cases "isBusFree w")
  from isBusFree_cases[OF f] have q: "quiet w w1" and r1: "r1 \<noteq> OutOfBounds"
    and sm: "r1 \<noteq> Blocked \<Longrightarrow> length (rxLevels w1) < length (rxLevels w)" by simp_all
  show ?case
  proof (cases r1)
    case (Ret free)
    show ?thesis
    proof (cases free)
      case True
      with Ret f less.prems q show ?thesis
        by (subst (asm) writeMessage_waitBusFree.simps) (auto simp: quiet_def intro: exI[of _ 0])
    next
      case False
      with Ret f less.prems have rec: "writeMessage_waitBusFree (delayUs 1 w1) = (r, w')"
        by (subst (asm) writeMessage_waitBusFree.simps) simp
      have "length (rxLevels (delayUs 1 w1)) < length (rxLevels w)"
        using sm Ret by (simp add: delayUs_def emit_def)
      from less.hyps[OF this rec] obtain k where
        "events w' = events (delayUs 1 w1) @ replicate k (DelayUs 1)"
        "m_isEnabled w' = m_isEnabled (delayUs 1 w1)" "r = Ret () \<or> r = Blocked" by blast
      with q have "events w' = events w @ replicate (Suc k) (DelayUs 1)"
        "m_isEnabled w' = m_isEnabled w" "r = Ret () \<or> r = Blocked"
        by (simp_all add: quiet_def delayUs_def emit_def replicate_app_Cons_same)
      then show ?thesis by blast
    qed
  next
    case Blocked
    with f less.prems q show ?thesis
      by (subst (asm) writeMessage_waitBusFree.simps) (auto simp: quiet_def intro: exI[of _ 0])
  next
    case OutOfBounds
    with r1 show ?thesis by simp
  qed
qed

lemma writeMessage_slave_sendField: "writeMessage_slave m = sendField (slave m) 12"
  by (simp add: writeMessage_slave_def sendField_def)

lemma writeMessage_control_sendField: "writeMessage_control m = sendField (ucast (control m)) 4"
  by (simp add: writeMessage_control_def sendField_def)

lemma writeMessage_dataLength_sendField:
  "writeMessage_dataLength m = sendField (ucast (dataLength m)) 8"
  by (simp add: writeMessage_dataLength_def sendField_def)

lemma writeMessage_dataByte_sendField:
  "i < 256 \<Longrightarrow> writeMessage_dataByte m i = sendField (ucast (data m ! i)) 8"
  by (simp add: writeMessage_dataByte_def sendField_def MAX_MESSAGE_SIZE_def)

lemma writeMessage_dataByte_fault:
  "\<not> i < 256 \<Longrightarrow> writeMessage_dataByte m i w = (OutOfBounds, w)"
  by (simp add: writeMessage_dataByte_def MAX_MESSAGE_SIZE_def)

lemma awaitAck_cases:
  assumes "awaitAck w = (r, w')"
  obtains (Ret) a where "a = 0 \<or> a = 1" "r = Ret (a = 0)" "events w' = events w @ [GotBit a]"
            "m_isEnabled w' = m_isEnabled w"
        | (Blocked) "r = Blocked" "quiet w w'"
proof -
  from assms have "(\<exists>a. (a = 0 \<or> a = 1) \<and> r = Ret (a = 0) \<and> events w' = events w @ [GotBit a]
                        \<and> m_isEnabled w' = m_isEnabled w)
                   \<or> (r = Blocked \<and> quiet w w')"
    unfolding awaitAck_def receiveAckBit_def
    apply (elim andThen_cases receiveBit_cases)
    apply (auto simp: ret_def split: if_splits)
    done
  then show ?thesis using that by blast
qed

lemma sendField_cases:
  assumes "sendField v n w = (r, w')"
  obtains (Ret) a where "a = 0 \<or> a = 1" "r = Ret (a = 0)"
            "events w' = events w @ fieldPulses n v @ [GotBit a]"
            "m_isEnabled w' = m_isEnabled w"
        | (Blocked) "r = Blocked" "events w' = events w @ fieldPulses n v"
            "m_isEnabled w' = m_isEnabled w"
proof -
  let ?w = "transmitBit (calculateParity v n) (transmitBits v n w)"
  from assms have a: "awaitAck ?w = (r, w')"
    by (simp add: sendField_def Let_def)
  have e: "events ?w = events w @ fieldPulses n v" "m_isEnabled ?w = m_isEnabled w"
    by (simp_all add: transmitBit_events transmitBits_events fieldPulses_def)
  from a show ?thesis
    by (cases rule: awaitAck_cases) (auto simp: e quiet_def intro: that)
qed

lemma not_rejected_bitPulse: "e \<in> set (bitPulse b) \<Longrightarrow> \<not> rejected e"
  by (auto simp: bitPulse_def rejected_def)

lemma not_rejected_fieldPulses: "e \<in> set (fieldPulses n v) \<Longrightarrow> \<not> rejected e"
  by (auto simp: fieldPulses_def dest: not_rejected_bitPulse)

lemma abortsOnNak_prepend:
  assumes "\<forall>e\<in>set es1. \<not> rejected e" "abortsOnNak r es2"
  shows "abortsOnNak r (es1 @ es2)"
  using assms unfolding abortsOnNak_def
  by (elim disjE exE conjE) (auto intro: exI[of _ "es1 @ es0" for es0])

lemma abortsOnNak_split:
  assumes "abortsOnNak r es" "es = pre @ GotBit a # post" "a \<noteq> 0"
  shows "post = [] \<and> r = Ret False"
proof -
  have rj: "rejected (GotBit a)" using assms(3) by (simp add: rejected_def)
  from assms(1) show ?thesis unfolding abortsOnNak_def
  proof (elim disjE exE conjE)
    assume "\<forall>e\<in>set es. \<not> rejected e"
    with rj assms(2) show ?thesis by auto
  next
    fix es0 a'
    assume es: "es = es0 @ [GotBit a']" and nr: "\<forall>e\<in>set es0. \<not> rejected e" and r: "r = Ret False"
    show ?thesis
    proof (cases post rule: rev_cases)
      case Nil
      with r show ?thesis by simp
    next
      case (snoc post' x)
      with es assms(2) have "es0 = pre @ GotBit a # post'" by simp
      with nr rj show ?thesis by auto
    qed
  qed
qed

lemma sendField_aborts:
  assumes "sendField v n w = (r, w')"
  shows "m_isEnabled w' = m_isEnabled w \<and> r \<noteq> OutOfBounds \<and>
         (\<exists>es. events w' = events w @ es \<and>
               (if r = Ret True then (\<forall>e\<in>set es. \<not> rejected e) else abortsOnNak r es))"
  using assms
proof (cases rule: sendField_cases)
  case (Ret a)
  show ?thesis
  proof (cases "a = 0")
    case True
    with Ret show ?thesis
      by (auto simp: rejected_def dest: not_rejected_fieldPulses)
  next
    case False
    have "abortsOnNak (Ret False) (fieldPulses n v @ [GotBit a])"
      unfolding abortsOnNak_def using False
      by (intro disjI2 exI[of _ "fieldPulses n v"] exI[of _ a])
         (auto dest: not_rejected_fieldPulses)
    with Ret False show ?thesis by auto
  qed
next
  case Blocked
  then show ?thesis by (auto simp: abortsOnNak_def dest: not_rejected_fieldPulses)
qed

lemma orFalse_aborts:
  assumes f: "\<And>w r w'. f w = (r, w') \<Longrightarrow> m_isEnabled w' = m_isEnabled w \<and> r \<noteq> OutOfBounds \<and>
         (\<exists>es. events w' = events w @ es \<and>
               (if r = Ret True then (\<forall>e\<in>set es. \<not> rejected e) else abortsOnNak r es))"
    and g: "\<And>w r w'. g w = (r, w') \<Longrightarrow> m_isEnabled w' = m_isEnabled w \<and>
         (\<exists>es. events w' = events w @ es \<and> abortsOnNak r es)"
    and run: "orFalse f g w = (r, w')"
  shows "m_isEnabled w' = m_isEnabled w \<and> (\<exists>es. events w' = events w @ es \<and> abortsOnNak r es)"
  using run unfolding orFalse_def
proof (cases rule: andThen_cases)
  case (Ret ok w1)
  from f[OF Ret(1)] obtain es1 where 1: "m_isEnabled w1 = m_isEnabled w"
    "events w1 = events w @ es1"
    "if ok then (\<forall>e\<in>set es1. \<not> rejected e) else abortsOnNak (Ret ok) es1" by auto
  show ?thesis
  proof (cases ok)
    case True
    with Ret(2) have "g w1 = (r, w')" by simp
    from g[OF this] obtain es2 where "m_isEnabled w' = m_isEnabled w1"
      "events w' = events w1 @ es2" "abortsOnNak r es2" by auto
    with 1 True show ?thesis
      by (auto intro!: exI[of _ "es1 @ es2"] abortsOnNak_prepend)
  next
    case False
    with Ret(2) have "r = Ret False" "w' = w1" by (simp_all add: ret_def)
    with 1 False show ?thesis by auto
  qed
next
  case Blocked
  from f[OF Blocked(1)] Blocked(2) show ?thesis by auto
next
  case OutOfBounds
  from f[OF OutOfBounds(1)] show ?thesis by simp
qed

lemma dataLoop_aborts:
  "writeMessage_dataLoop m i w = (r, w') \<Longrightarrow>
     m_isEnabled w' = m_isEnabled w \<and> (\<exists>es. events w' = events w @ es \<and> abortsOnNak r es)"
proof (induction "unat (dataLength m) - i" arbitrary: i w)
  case 0
  then show ?case
    by (subst (asm) writeMessage_dataLoop.simps) (auto simp: abortsOnNak_def)
next
  case (Suc k)
  then have lt: "i < unat (dataLength m)" and k: "k = unat (dataLength m) - Suc i" by simp_all
  show ?case
  proof (cases "i < 256")
    case False
    with Suc.prems lt show ?thesis
      by (subst (asm) writeMessage_dataLoop.simps)
         (auto simp: writeMessage_dataByte_fault abortsOnNak_def)
  next
    case True
    obtain r1 w1 where s: "sendField (ucast (data m ! i)) 8 w = (r1, w1)"
      by (cases "sendField (ucast (data m ! i)) 8 w")
    from sendField_aborts[OF s] obtain es1 where 1: "m_isEnabled w1 = m_isEnabled w"
      "r1 \<noteq> OutOfBounds" "events w1 = events w @ es1"
      "if r1 = Ret True then (\<forall>e\<in>set es1. \<not> rejected e) else abortsOnNak r1 es1" by auto
    show ?thesis
    proof (cases "r1 = Ret True")
      case True
      with Suc.prems lt s \<open>i < 256\<close> have "writeMessage_dataLoop m (Suc i) w1 = (r, w')"
        by (subst (asm) writeMessage_dataLoop.simps) (simp add: writeMessage_dataByte_sendField)
      from Suc.hyps(1)[OF k this] obtain es2 where "m_isEnabled w' = m_isEnabled w1"
        "events w' = events w1 @ es2" "abortsOnNak r es2" by auto
      with 1 True show ?thesis
        by (auto intro!: exI[of _ "es1 @ es2"] abortsOnNak_prepend)
    next
      case False
      with Suc.prems lt s \<open>i < 256\<close> 1(2) have "r = r1" "w' = w1"
        by (subst (asm) writeMessage_dataLoop.simps,
            cases r1; simp add: writeMessage_dataByte_sendField)+
      with 1 False show ?thesis by auto
    qed
  qed
qed

lemma transmitStartBit_events: "transmitStartBit w = w\<lparr>events := events w @ startPulse\<rparr>"
  by (simp add: transmitStartBit_def startPulse_def delayUs_def gpio_set_level_tx_def emit_def
        START_BIT_HIGH_US_def START_BIT_LOW_US_def START_BIT_TOTAL_US_def)

lemma writeMessage_master_events:
  "writeMessage_master m w = w\<lparr>events := events w @ fieldPulses 12 (master m)\<rparr>"
  by (simp add: writeMessage_master_def Let_def transmitBit_events transmitBits_events
                fieldPulses_def)

lemma not_rejected_writeHeader: "e \<in> set (writeHeader m) \<Longrightarrow> \<not> rejected e"
  by (auto simp: writeHeader_def startPulse_def rejected_def
           dest: not_rejected_bitPulse not_rejected_fieldPulses)

lemma andThen_act_fun: "andThen (act f) g = (\<lambda>w. g () (f w))"
  by (rule ext) simp

text \<open>The part of writeMessage after the wait for a free bus.\<close>

lemma writeMessage_enabled:
  assumes "isEnabled w"
  shows "writeMessage m w =
     andThen writeMessage_waitBusFree (\<lambda>_ w1.
        (orFalse (writeMessage_slave m)
        (orFalse (writeMessage_control m)
        (orFalse (writeMessage_dataLength m)
                 (writeMessage_dataLoop m 0))))
          (w1\<lparr>events := events w1 @ writeHeader m\<rparr>)) w"
  using assms
  by (simp add: writeMessage_def writeHeader_def transmitStartBit_events transmitBit_events
                writeMessage_master_events broadcastBit_def andThen_act_fun)

lemma writeMessage_aborts:
  assumes "writeMessage m w = (r, w')"
  shows "\<exists>es. events w' = events w @ es \<and> abortsOnNak r es"
proof (cases "isEnabled w")
  case False
  with assms show ?thesis by (auto simp: writeMessage_def abortsOnNak_def)
next
  case True
  from assms[unfolded writeMessage_enabled[OF True]] show ?thesis
  proof (cases rule: andThen_cases)
    case (Ret u w1)
    from waitBusFree_cases[OF Ret(1)] obtain k where
      k: "events w1 = events w @ replicate k (DelayUs 1)" by blast
    let ?w2 = "w1\<lparr>events := events w1 @ writeHeader m\<rparr>"
    have "m_isEnabled w' = m_isEnabled ?w2 \<and> (\<exists>es. events w' = events ?w2 @ es \<and> abortsOnNak r es)"
      apply (rule orFalse_aborts[OF _ _ Ret(2)])
       apply (simp only: writeMessage_slave_sendField, erule sendField_aborts)
      apply (erule orFalse_aborts[rotated 2])
       apply (simp only: writeMessage_control_sendField, erule sendField_aborts)
      apply (erule orFalse_aborts[rotated 2])
       apply (simp only: writeMessage_dataLength_sendField, erule sendField_aborts)
      apply (erule dataLoop_aborts)
      done
    then obtain es where es: "events w' = events ?w2 @ es" "abortsOnNak r es" by blast
    have "\<forall>e\<in>set (replicate k (DelayUs 1) @ writeHeader m). \<not> rejected e"
      by (auto simp: rejected_def dest: not_rejected_writeHeader)
    from abortsOnNak_prepend[OF this es(2)] es(1) k show ?thesis by auto
  next
    case Blocked
    from waitBusFree_cases[OF Blocked(1)] show ?thesis
      by (auto simp: abortsOnNak_def rejected_def)
  next
    case OutOfBounds
    from waitBusFree_cases[OF OutOfBounds(1)] show ?thesis by simp
  qed
qed

lemma onBus_transmitBit: "transmitBit b (onBus ds w) = onBus ds (transmitBit b w)"
  by (simp add: transmitBit_events onBus_def)

lemma onBus_transmitBits: "transmitBits v n (onBus ds w) = onBus ds (transmitBits v n w)"
  by (simp add: transmitBits_events onBus_def)

lemma awaitAck_onBus:
  "awaitAck (onBus (d # ds) w) =
     (Ret (decodeBit d = 0), onBus ds (w\<lparr>events := events w @ [GotBit (decodeBit d)]\<rparr>))"
  by (simp add: awaitAck_def receiveAckBit_def andThen_def receiveBit_onBus ret_def emit_def)

lemma sendField_onBus:
  "sendField v n (onBus (d # ds) w) =
     (Ret (decodeBit d = 0),
      onBus ds (w\<lparr>events := events w @ fieldPulses n v @ [GotBit (decodeBit d)]\<rparr>))"
  by (simp add: sendField_def Let_def onBus_transmitBit onBus_transmitBits awaitAck_onBus
                transmitBit_events transmitBits_events fieldPulses_def onBus_events_update)

lemma awaitAck_onBus_Nil: "awaitAck (onBus [] w) = (Blocked, onBus [] w)"
  by (simp add: awaitAck_def receiveAckBit_def andThen_def receiveBit_onBus_Nil)

lemma sendField_onBus_Nil:
  "sendField v n (onBus [] w) =
     (Blocked, onBus [] (w\<lparr>events := events w @ fieldPulses n v\<rparr>))"
  by (simp add: sendField_def Let_def onBus_transmitBit onBus_transmitBits awaitAck_onBus_Nil
                transmitBit_events transmitBits_events fieldPulses_def onBus_events_update)

lemma isBusFree_afterIdle: "isBusFree (afterIdle w) = (Ret True, w)"
  by (subst isBusFree_def, simp add: andThen_def isBusHigh_def gpio_get_level_rx_def afterIdle_def
        getTimeUs_def ret_def, subst isBusFree_loop.simps)
     (simp add: isBusLow_def andThen_def isBusHigh_def gpio_get_level_rx_def getTimeUs_def ret_def
        DATA_BIT_TOTAL_US_def Let_def)

lemma waitBusFree_afterIdle: "writeMessage_waitBusFree (afterIdle w) = (Ret (), w)"
  by (subst writeMessage_waitBusFree.simps) (simp add: isBusFree_afterIdle)

lemma afterIdle_fields [simp]:
  "events (afterIdle w) = events w" "m_isEnabled (afterIdle w) = m_isEnabled w"
  by (simp_all add: afterIdle_def)

lemma writeMessage_afterIdle:
  assumes "m_isEnabled w"
  shows "writeMessage m (afterIdle w) =
      (orFalse (writeMessage_slave m)
        (orFalse (writeMessage_control m)
        (orFalse (writeMessage_dataLength m)
                 (writeMessage_dataLoop m 0))))
          (w\<lparr>events := events w @ writeHeader m\<rparr>)"
  using assms
  by (simp add: writeMessage_enabled isEnabled_def
                andThen_Ret[where f = writeMessage_waitBusFree, OF waitBusFree_afterIdle])

lemma orFalse_True: "f w = (Ret True, w1) \<Longrightarrow> orFalse f g w = g w1"
  by (simp add: orFalse_def andThen_def)

lemma orFalse_False: "f w = (Ret False, w1) \<Longrightarrow> orFalse f g w = (Ret False, w1)"
  by (simp add: orFalse_def andThen_def ret_def)

lemma demo_run:
  "writeMessage demoMessage (afterIdle (onBus [33, 20] idle)) =
     (Ret False,
      onBus [] (idle\<lparr>events := writeHeader demoMessage @ fieldPulses 12 0x123 @ [GotBit 0]
                                  @ fieldPulses 4 2 @ [GotBit 1]\<rparr>))"
proof -
  have en: "m_isEnabled (onBus [33, 20] idle)" by (simp add: idle_def)
  have s: "slave demoMessage = 0x123" "ucast (control demoMessage) = (2 :: Data)"
    by (simp_all add: demoMessage_def emptyMessage_def)
  show ?thesis
    unfolding writeMessage_afterIdle[OF en]
    apply (simp add: onBus_events_update)
    apply (subst orFalse_True)
     apply (simp add: writeMessage_slave_sendField sendField_onBus decodeBit_canonical s)
    apply (subst orFalse_False)
     apply (simp add: writeMessage_control_sendField sendField_onBus decodeBit_canonical s)
    apply (simp add: idle_def)
    done
qed

text \<open>
  C3. A disabled controller makes \<open>writeMessage\<close> fail at once, in the world it was
  called in: nothing is read, written or waited for. In every run, a handshake bit
  other than 0 (a rejection) is the last event of the call, and the call returns
  failure: nothing is transmitted after it. The only bits \<open>writeMessage\<close> receives are
  the handshakes it awaits after the slave, control, length and payload fields.
\<close>

theorem writeMessage_stops_at_reject:
  assumes "writeMessage m w = (r, w')"
  shows "(\<not> isEnabled w \<longrightarrow> r = Ret False \<and> w' = w)
       \<and> (\<forall>pre a post. events w' = events w @ pre @ GotBit a # post \<and> a \<noteq> 0
              \<longrightarrow> post = [] \<and> r = Ret False)"
proof -
  from writeMessage_aborts[OF assms] obtain es where
    es: "events w' = events w @ es" "abortsOnNak r es" by blast
  have "post = [] \<and> r = Ret False"
    if "events w' = events w @ pre @ GotBit a # post \<and> a \<noteq> 0" for pre a post
    using that es abortsOnNak_split[of r es pre a post] by simp
  moreover have "\<not> isEnabled w \<longrightarrow> r = Ret False \<and> w' = w"
    using assms by (auto simp: writeMessage_def)
  ultimately show ?thesis by blast
qed

theorem writeMessage_stops_at_reject_witness:
  "writeMessage demoMessage (afterIdle (onBus [33, 20] idle)) =
     (Ret False,
      onBus [] (idle\<lparr>events := writeHeader demoMessage @ fieldPulses 12 0x123 @ [GotBit 0]
                                  @ fieldPulses 4 2 @ [GotBit 1]\<rparr>))
   \<and> events (onBus [] (idle\<lparr>events := writeHeader demoMessage @ fieldPulses 12 0x123 @ [GotBit 0]
                                  @ fieldPulses 4 2 @ [GotBit 1]\<rparr>))
       = events (afterIdle (onBus [33, 20] idle))
         @ (writeHeader demoMessage @ fieldPulses 12 0x123 @ [GotBit 0] @ fieldPulses 4 2)
         @ GotBit 1 # []
   \<and> (1 :: Bit) \<noteq> 0
   \<and> \<not> isEnabled (idle\<lparr>m_isEnabled := False\<rparr>)
   \<and> writeMessage demoMessage (idle\<lparr>m_isEnabled := False\<rparr>)
       = (Ret False, idle\<lparr>m_isEnabled := False\<rparr>)"
proof -
  have d: "\<not> isEnabled (idle\<lparr>m_isEnabled := False\<rparr>)" by (simp add: isEnabled_def)
  have "writeMessage demoMessage (idle\<lparr>m_isEnabled := False\<rparr>)
          = (fst (writeMessage demoMessage (idle\<lparr>m_isEnabled := False\<rparr>)),
             snd (writeMessage demoMessage (idle\<lparr>m_isEnabled := False\<rparr>)))" by simp
  from writeMessage_stops_at_reject[OF this] d
  have "writeMessage demoMessage (idle\<lparr>m_isEnabled := False\<rparr>)
       = (Ret False, idle\<lparr>m_isEnabled := False\<rparr>)"
    by (simp add: prod_eq_iff)
  moreover note writeMessage_stops_at_reject[OF demo_run]
  ultimately show ?thesis using demo_run d by (simp add: idle_def)
qed

lemma dataLoop_no_fault:
  "unat (dataLength m) \<le> 256 \<Longrightarrow> writeMessage_dataLoop m i w = (r, w') \<Longrightarrow> r \<noteq> OutOfBounds"
proof (induction "unat (dataLength m) - i" arbitrary: i w)
  case 0
  then show ?case by (subst (asm) writeMessage_dataLoop.simps) auto
next
  case (Suc k)
  then have lt: "i < unat (dataLength m)" and k: "k = unat (dataLength m) - Suc i"
    and i: "i < 256" by simp_all
  obtain r1 w1 where s: "sendField (ucast (data m ! i)) 8 w = (r1, w1)"
    by (cases "sendField (ucast (data m ! i)) 8 w")
  from sendField_aborts[OF s] have r1: "r1 \<noteq> OutOfBounds" by simp
  show ?case
  proof (cases "r1 = Ret True")
    case True
    with Suc.prems lt s i have "writeMessage_dataLoop m (Suc i) w1 = (r, w')"
      by (subst (asm) writeMessage_dataLoop.simps) (simp add: writeMessage_dataByte_sendField)
    from Suc.hyps(1)[OF k Suc.prems(1) this] show ?thesis .
  next
    case False
    with Suc.prems lt s i r1 have "r = r1"
      by (subst (asm) writeMessage_dataLoop.simps)
         (cases r1; simp add: writeMessage_dataByte_sendField)
    with r1 show ?thesis by simp
  qed
qed

lemma orFalse_no_fault:
  assumes f: "\<And>w r w'. f w = (r, w') \<Longrightarrow> r \<noteq> OutOfBounds"
    and g: "\<And>w r w'. g w = (r, w') \<Longrightarrow> r \<noteq> OutOfBounds"
    and run: "orFalse f g w = (r, w')"
  shows "r \<noteq> OutOfBounds"
  using run unfolding orFalse_def
  by (cases rule: andThen_cases) (auto simp: ret_def split: if_splits dest: f g)

lemma sendField_no_fault: "sendField v n w = (r, w') \<Longrightarrow> r \<noteq> OutOfBounds"
  using sendField_aborts by blast

lemma writeMessage_no_fault:
  assumes "unat (dataLength m) \<le> 256" "writeMessage m w = (r, w')"
  shows "r \<noteq> OutOfBounds"
proof (cases "isEnabled w")
  case False
  with assms(2) show ?thesis by (auto simp: writeMessage_def)
next
  case True
  from assms(2)[unfolded writeMessage_enabled[OF True]] show ?thesis
  proof (cases rule: andThen_cases)
    case (Ret u w1)
    show ?thesis
      apply (rule orFalse_no_fault[OF _ _ Ret(2)])
       apply (simp only: writeMessage_slave_sendField, erule sendField_no_fault)
      apply (erule orFalse_no_fault[rotated 2])
       apply (simp only: writeMessage_control_sendField, erule sendField_no_fault)
      apply (erule orFalse_no_fault[rotated 2])
       apply (simp only: writeMessage_dataLength_sendField, erule sendField_no_fault)
      apply (erule dataLoop_no_fault[OF assms(1)])
      done
  next
    case Blocked
    then show ?thesis by simp
  next
    case OutOfBounds
    from waitBusFree_cases[OF OutOfBounds(1)] show ?thesis by simp
  qed
qed

lemma dataLoop_fault:
  assumes "256 < unat (dataLength m)"
  shows "i + n = 256 \<Longrightarrow>
         fst (writeMessage_dataLoop m i (onBus (replicate n 33 @ ds) w)) = OutOfBounds"
proof (induction n arbitrary: i w)
  case 0
  with assms show ?case
    by (subst writeMessage_dataLoop.simps) (simp add: writeMessage_dataByte_fault)
next
  case (Suc n)
  then have i: "i < 256" and n: "Suc i + n = 256" by simp_all
  from i assms have lt: "i < unat (dataLength m)" by simp
  show ?case
    by (subst writeMessage_dataLoop.simps)
       (simp add: lt i writeMessage_dataByte_sendField sendField_onBus decodeBit_canonical
                  Suc.IH[OF n])
qed

lemma writeMessage_fault:
  assumes "256 < unat (dataLength m)"
  shows "fst (writeMessage m (afterIdle (onBus (replicate 259 33) idle))) = OutOfBounds"
proof -
  have en: "m_isEnabled (onBus (replicate 259 33) idle)" by (simp add: idle_def)
  have r: "replicate 259 (33 :: Time) = 33 # 33 # 33 # replicate 256 33 @ []"
    by (simp add: numeral_eq_Suc)
  show ?thesis
    unfolding writeMessage_afterIdle[OF en]
    apply (simp only: r onBus_events_update)
    apply (subst orFalse_True)
     apply (simp add: writeMessage_slave_sendField sendField_onBus decodeBit_canonical)
    apply (subst orFalse_True)
     apply (simp add: writeMessage_control_sendField sendField_onBus decodeBit_canonical)
    apply (subst orFalse_True)
     apply (simp add: writeMessage_dataLength_sendField sendField_onBus decodeBit_canonical)
    apply (rule dataLoop_fault[OF assms, of 0 256 "[]", simplified])
    done
qed

lemma gotBits_append [simp]: "gotBits (xs @ ys) = gotBits xs @ gotBits ys"
  by (induction xs rule: gotBits.induct) simp_all

lemma gotBits_map_GotBit [simp]: "gotBits (map GotBit bs) = bs"
  by (induction bs) simp_all

lemma gotBits_bitPulse [simp]: "gotBits (bitPulse b) = []"
  by (simp add: bitPulse_def)

lemma gotBits_bitPulses [simp]: "gotBits (concat (map bitPulse bs)) = []"
  by (induction bs) simp_all

lemma gotBits_fieldPulses [simp]: "gotBits (fieldPulses n v) = []"
  by (simp add: fieldPulses_def)

lemma gotBits_writeHeader [simp]: "gotBits (writeHeader m) = []"
  by (simp add: writeHeader_def startPulse_def)

lemma gotBits_delays [simp]: "gotBits (replicate k (DelayUs d)) = []"
  by (induction k) simp_all

lemma logged_append: "events w' = events w @ es \<Longrightarrow> logged w w' = es"
  by (simp add: logged_def)

lemma orFalse_cases:
  assumes "orFalse f g w = (r, w')"
  obtains (Go) w1 where "f w = (Ret True, w1)" "g w1 = (r, w')"
        | (Stop) "f w = (r, w')" "r \<noteq> Ret True"
  using assms unfolding orFalse_def
  by (cases rule: andThen_cases) (auto simp: ret_def split: if_splits)

lemma low8_bits:
  assumes "p < 8"
  shows "bit (ucast (l :: Size) :: Data) p = bit (word_of_nat (unat l mod 256) :: Data) p"
proof -
  have "unat l mod 256 = take_bit 8 (unat l)" by (simp add: take_bit_eq_mod)
  then have "(word_of_nat (unat l mod 256) :: Data) = take_bit 8 (ucast l)"
    by (metis of_nat_unat take_bit_of_nat)
  then show ?thesis using assms by (simp add: bit_take_bit_iff)
qed

lemma low8_fieldBits:
  "fieldBits 8 (ucast (l :: Size) :: Data) = fieldBits 8 (word_of_nat (unat l mod 256))"
  by (auto simp: fieldBits_def low8_bits)

lemma low8_xor:
  "xorOfLowBits (ucast (l :: Size) :: Data) 8 = xorOfLowBits (word_of_nat (unat l mod 256)) 8"
proof -
  have "foldr (\<lambda>i p. bit (ucast l :: Data) i \<noteq> p) [0..<8] False
      = foldr (\<lambda>i p. bit (word_of_nat (unat l mod 256) :: Data) i \<noteq> p) [0..<8] False"
    by (rule foldr_cong) (simp_all add: low8_bits)
  then show ?thesis by (simp add: xorOfLowBits_def)
qed

lemma writeMessage_to_length_field:
  assumes run: "writeMessage m w = (r, w')" and acks: "take 2 (gotBits (logged w w')) = [0, 0]"
  shows "\<exists>k rest. logged w w' =
           replicate k (DelayUs 1) @ writeHeader m
           @ fieldPulses 12 (slave m) @ [GotBit 0]
           @ fieldPulses 4 (ucast (control m)) @ [GotBit 0]
           @ fieldPulses 8 (ucast (dataLength m)) @ rest"
proof (cases "isEnabled w")
  case False
  with run have "w' = w" by (auto simp: writeMessage_def)
  with acks show ?thesis by (simp add: logged_def)
next
  case True
  from run[unfolded writeMessage_enabled[OF True]] show ?thesis
  proof (cases rule: andThen_cases)
    case (Ret u w1)
    from waitBusFree_cases[OF Ret(1)] obtain k where
      k: "events w1 = events w @ replicate k (DelayUs 1)" by blast
    let ?w2 = "w1\<lparr>events := events w1 @ writeHeader m\<rparr>"
    have e2: "events ?w2 = events w @ replicate k (DelayUs 1) @ writeHeader m" using k by simp
    from Ret(2) show ?thesis
    proof (cases rule: orFalse_cases)
      case Stop
      from Stop(1)[unfolded writeMessage_slave_sendField] Stop(2) acks e2 show ?thesis
        by (cases rule: sendField_cases) (auto simp: logged_def)
    next
      case (Go w3)
      from Go(1)[unfolded writeMessage_slave_sendField]
      have e3: "events w3 = events ?w2 @ fieldPulses 12 (slave m) @ [GotBit 0]"
        by (cases rule: sendField_cases) auto
      from Go(2) show ?thesis
      proof (cases rule: orFalse_cases)
        case Stop
        from Stop(1)[unfolded writeMessage_control_sendField] Stop(2) acks e2 e3 show ?thesis
          by (cases rule: sendField_cases) (auto simp: logged_def)
      next
        case (Go w4)
        from Go(1)[unfolded writeMessage_control_sendField]
        have e4: "events w4 = events w3 @ fieldPulses 4 (ucast (control m)) @ [GotBit 0]"
          by (cases rule: sendField_cases) auto
        have "\<exists>rest. events w' = events w4 @ fieldPulses 8 (ucast (dataLength m)) @ rest"
          using Go(2)
        proof (cases rule: orFalse_cases)
          case Stop
          from Stop(1)[unfolded writeMessage_dataLength_sendField] show ?thesis
            by (cases rule: sendField_cases) auto
        next
          case (Go w5)
          from Go(1)[unfolded writeMessage_dataLength_sendField]
          have e5: "events w5 = events w4 @ fieldPulses 8 (ucast (dataLength m)) @ [GotBit 0]"
            by (cases rule: sendField_cases) auto
          from dataLoop_aborts[OF Go(2)] obtain es where "events w' = events w5 @ es" by blast
          with e5 show ?thesis by simp
        qed
        then obtain rest where "events w' = events w4 @ fieldPulses 8 (ucast (dataLength m)) @ rest"
          by blast
        with e2 e3 e4 show ?thesis by (auto simp: logged_def)
      qed
    qed
  next
    case Blocked
    from waitBusFree_cases[OF Blocked(1)] acks show ?thesis by (auto simp: logged_def)
  next
    case OutOfBounds
    from waitBusFree_cases[OF OutOfBounds(1)] show ?thesis by simp
  qed
qed

lemma idle_fields [simp]: "events idle = []" "m_isEnabled idle"
  by (simp_all add: idle_def)

text \<open>
  C5. In every run of \<open>writeMessage\<close> in which the slave and control handshakes were
  acknowledged, the log continues with the eight pulses of the bits of
  \<open>dataLength mod 256\<close>, most significant first, and the pulse of the exclusive-or of
  those eight bits, whatever the handshake that follows. For \<open>dataLength = 256\<close> these
  are eight 0 pulses and a 0 parity pulse: the write path does not map 256 to the
  wire in any other way than by dropping its upper bits.
\<close>

theorem writeMessage_length_field_raw:
  assumes "writeMessage m w = (r, w')" and "take 2 (gotBits (logged w w')) = [0, 0]"
  shows "\<exists>k rest. logged w w' =
           replicate k (DelayUs 1) @ writeHeader m
           @ fieldPulses 12 (slave m) @ [GotBit 0]
           @ fieldPulses 4 (ucast (control m)) @ [GotBit 0]
           @ concat (map bitPulse (fieldBits 8 (word_of_nat (unat (dataLength m) mod 256))))
           @ bitPulse (xorOfLowBits (word_of_nat (unat (dataLength m) mod 256)) 8)
           @ rest"
proof -
  have "fieldPulses 8 (ucast (dataLength m)) =
          concat (map bitPulse (fieldBits 8 (word_of_nat (unat (dataLength m) mod 256))))
          @ bitPulse (xorOfLowBits (word_of_nat (unat (dataLength m) mod 256)) 8)"
    by (simp add: fieldPulses_def calculateParity_xor low8_fieldBits low8_xor)
  with writeMessage_to_length_field[OF assms] show ?thesis by simp
qed

lemma demo256_run:
  "writeMessage (demoMessage\<lparr>dataLength := 256\<rparr>) (afterIdle (onBus [33, 33, 20] idle)) =
     (Ret False,
      onBus [] (idle\<lparr>events := writeHeader (demoMessage\<lparr>dataLength := 256\<rparr>)
                                  @ fieldPulses 12 0x123 @ [GotBit 0]
                                  @ fieldPulses 4 2 @ [GotBit 0]
                                  @ fieldPulses 8 256 @ [GotBit 1]\<rparr>))"
proof -
  have en: "m_isEnabled (onBus [33, 33, 20] idle)" by (simp add: idle_def)
  have s: "slave demoMessage = 0x123" "ucast (control demoMessage) = (2 :: Data)"
    by (simp_all add: demoMessage_def emptyMessage_def)
  show ?thesis
    unfolding writeMessage_afterIdle[OF en]
    apply (simp add: onBus_events_update)
    apply (subst orFalse_True)
     apply (simp add: writeMessage_slave_sendField sendField_onBus decodeBit_canonical s)
    apply (subst orFalse_True)
     apply (simp add: writeMessage_control_sendField sendField_onBus decodeBit_canonical s)
    apply (subst orFalse_False)
     apply (simp add: writeMessage_dataLength_sendField sendField_onBus decodeBit_canonical s)
    apply (simp add: idle_def)
    done
qed

theorem writeMessage_length_field_raw_witness:
  "take 2 (gotBits (logged (afterIdle (onBus [33, 33, 20] idle))
       (snd (writeMessage (demoMessage\<lparr>dataLength := 256\<rparr>)
               (afterIdle (onBus [33, 33, 20] idle)))))) = [0, 0]
   \<and> fieldBits 8 (word_of_nat (unat (dataLength (demoMessage\<lparr>dataLength := 256\<rparr>)) mod 256))
       = [0, 0, 0, 0, 0, 0, 0, 0]
   \<and> xorOfLowBits (word_of_nat (unat (dataLength (demoMessage\<lparr>dataLength := 256\<rparr>)) mod 256)) 8 = 0
   \<and> (\<exists>k rest. logged (afterIdle (onBus [33, 33, 20] idle))
          (snd (writeMessage (demoMessage\<lparr>dataLength := 256\<rparr>)
                  (afterIdle (onBus [33, 33, 20] idle)))) =
           replicate k (DelayUs 1) @ writeHeader (demoMessage\<lparr>dataLength := 256\<rparr>)
           @ fieldPulses 12 0x123 @ [GotBit 0]
           @ fieldPulses 4 2 @ [GotBit 0]
           @ concat (map bitPulse [0, 0, 0, 0, 0, 0, 0, 0]) @ bitPulse 0 @ rest)"
proof -
  let ?m = "demoMessage\<lparr>dataLength := 256\<rparr>"
  let ?W = "afterIdle (onBus [33, 33, 20] idle)"
  have acks: "take 2 (gotBits (logged ?W (snd (writeMessage ?m ?W)))) = [0, 0]"
    by (simp add: demo256_run logged_def)
  have fb: "fieldBits 8 (word_of_nat (unat (dataLength ?m) mod 256)) = [0, 0, 0, 0, 0, 0, 0, 0]"
    by code_simp
  have x: "xorOfLowBits (word_of_nat (unat (dataLength ?m) mod 256)) 8 = 0"
    by code_simp
  have s: "slave ?m = 0x123" "ucast (control ?m) = (2 :: Data)"
    by (simp_all add: demoMessage_def emptyMessage_def)
  have run: "writeMessage ?m ?W = (fst (writeMessage ?m ?W), snd (writeMessage ?m ?W))" by simp
  from writeMessage_length_field_raw[OF run acks] have
    "\<exists>k rest. logged ?W (snd (writeMessage ?m ?W)) =
           replicate k (DelayUs 1) @ writeHeader ?m
           @ fieldPulses 12 0x123 @ [GotBit 0]
           @ fieldPulses 4 2 @ [GotBit 0]
           @ concat (map bitPulse [0, 0, 0, 0, 0, 0, 0, 0]) @ bitPulse 0 @ rest"
    unfolding fb x s .
  with acks fb x show ?thesis by blast
qed

end
